theory Spec2Isabelle
  imports Main "HOL-Library.Word"
begin

unbundle bit_operations_syntax

section \<open>Data model of \<^verbatim>\<open>src/ringbuffer.h\<close>\<close>

text \<open>
  Cursors and lengths are \<^verbatim>\<open>uint64_t\<close>: 64-bit words, on which \<open>+\<close> and \<open>-\<close> wrap
  around and \<open>\<le>\<close> is the unsigned comparison. The storage obtained from
  \<^verbatim>\<open>malloc\<close> is a list of bytes. A caller's \<^verbatim>\<open>const uint8_t* buf\<close> is the list of
  bytes that can be read from that address on.
\<close>

type_synonym u8 = "8 word"
type_synonym u64 = "64 word"

text \<open>
  The two ways a call stops the process: \<^verbatim>\<open>assert(buffer_)\<close> in the constructors, and
  \<^verbatim>\<open>printf("write len %lu > buf_size_ %lu\n", len, buf_size_); assert(false);\<close> in
  \<^verbatim>\<open>ringbuffer_spsc::write\<close> (the two printed numbers are kept). Assertions are
  taken to be enabled (no \<^verbatim>\<open>NDEBUG\<close>).
\<close>

datatype fatal = Assert_buffer | Write_len_gt_buf_size u64 u64

text \<open>
  How a call that stops does so: it returns, the process is aborted, or a
  \<^verbatim>\<open>memcpy\<close> leaves the memory it was given (undefined behaviour in C++). A call that
  never stops has no outcome at all: the functions below return \<open>None\<close> for it.
\<close>

datatype 'a outcome = Completed 'a | Aborted fatal | Out_of_bounds

record ringbuffer_spsc =
  spsc_buffer :: "u8 list"
  spsc_buf_size :: u64
  spsc_enable_cv :: bool
  spsc_in :: u64
  spsc_out :: u64

record ringbuffer_mpmc =
  mpmc_buffer :: "u8 list"
  mpmc_buf_size :: u64
  mpmc_enable_cv :: bool
  mpmc_in :: u64
  mpmc_real_in :: u64
  mpmc_out :: u64
  mpmc_real_out :: u64

subsection \<open>Memory\<close>

text \<open>
  \<^verbatim>\<open>memcpy(mem + off, src, n)\<close> and \<^verbatim>\<open>memcpy(dst, mem + off, n)\<close>; \<open>None\<close> when
  the \<open>n\<close> bytes do not lie inside the region.
\<close>

definition memcpy_to :: "u8 list \<Rightarrow> nat \<Rightarrow> u8 list \<Rightarrow> nat \<Rightarrow> u8 list option" where
  "memcpy_to mem off src n =
     (if off + n \<le> length mem \<and> n \<le> length src
      then Some (take off mem @ take n src @ drop (off + n) mem)
      else None)"

definition memcpy_from :: "u8 list \<Rightarrow> nat \<Rightarrow> nat \<Rightarrow> u8 list option" where
  "memcpy_from mem off n =
     (if off + n \<le> length mem then Some (take n (drop off mem)) else None)"

subsection \<open>Waiting\<close>

text \<open>
  \<^verbatim>\<open>cv_.wait(lk, pred)\<close> and \<^verbatim>\<open>while (!pred()) {}\<close>: the calling thread changes
  nothing while it waits, so in a call that runs alone the predicate keeps the value
  it had on entry, and a false predicate is a wait that never ends.
\<close>

partial_function (option) wait_until :: "bool \<Rightarrow> unit option" where
  "wait_until p = (if \<not> p then wait_until p else Some ())"

text \<open>
  \<^verbatim>\<open>a.compare_exchange_weak(expected, desired)\<close> on an atomic holding \<open>cur\<close>:
  success, the new value of the atomic, the new value of \<open>expected\<close>. Spurious
  failures are left out: they only repeat an iteration of the loop around the call.
\<close>

definition compare_exchange :: "u64 \<Rightarrow> u64 \<Rightarrow> u64 \<Rightarrow> bool \<times> u64 \<times> u64" where
  "compare_exchange cur expected desired =
     (if cur = expected then (True, desired, expected) else (False, cur, cur))"

section \<open>\<^verbatim>\<open>ringbuffer_spsc\<close>\<close>

text \<open>The constructor; \<open>malloc\<close> is the allocator, \<open>None\<close> its null pointer.\<close>

definition ringbuffer_spsc_ctor ::
  "(u64 \<Rightarrow> u8 list option) \<Rightarrow> u64 \<Rightarrow> bool \<Rightarrow> fatal + ringbuffer_spsc" where
  "ringbuffer_spsc_ctor malloc buf_size enable_cv =
     (case malloc buf_size of
        None \<Rightarrow> Inl Assert_buffer
      | Some mem \<Rightarrow>
          Inr \<lparr>spsc_buffer = mem, spsc_buf_size = buf_size, spsc_enable_cv = enable_cv,
               spsc_in = 0, spsc_out = 0\<rparr>)"

definition spsc_get_total_in :: "ringbuffer_spsc \<Rightarrow> u64" where
  "spsc_get_total_in s = spsc_in s"

definition spsc_get_total_out :: "ringbuffer_spsc \<Rightarrow> u64" where
  "spsc_get_total_out s = spsc_out s"

definition spsc_can_put :: "ringbuffer_spsc \<Rightarrow> u64 \<Rightarrow> bool" where
  "spsc_can_put s sz = (spsc_in s + sz \<le> spsc_buf_size s + spsc_out s)"

definition spsc_can_get :: "ringbuffer_spsc \<Rightarrow> u64 \<Rightarrow> bool" where
  "spsc_can_get s sz = (spsc_in s \<ge> sz + spsc_out s)"

definition spsc_put :: "ringbuffer_spsc \<Rightarrow> u8 list \<Rightarrow> u64 \<Rightarrow> ringbuffer_spsc option" where
  "spsc_put s buf len =
     (let l = min len (spsc_buf_size s - (spsc_in s AND (spsc_buf_size s - 1))) in
      case memcpy_to (spsc_buffer s) (unat (spsc_in s AND (spsc_buf_size s - 1))) buf (unat l) of
        None \<Rightarrow> None
      | Some m1 \<Rightarrow>
         (case memcpy_to m1 0 (drop (unat l) buf) (unat (len - l)) of
            None \<Rightarrow> None
          | Some m2 \<Rightarrow> Some (s\<lparr>spsc_buffer := m2, spsc_in := spsc_in s + len\<rparr>)))"

definition spsc_get :: "ringbuffer_spsc \<Rightarrow> u64 \<Rightarrow> (u8 list \<times> ringbuffer_spsc) option" where
  "spsc_get s len =
     (let l = min len (spsc_buf_size s - (spsc_out s AND (spsc_buf_size s - 1))) in
      case memcpy_from (spsc_buffer s) (unat (spsc_out s AND (spsc_buf_size s - 1))) (unat l) of
        None \<Rightarrow> None
      | Some b1 \<Rightarrow>
         (case memcpy_from (spsc_buffer s) 0 (unat (len - l)) of
            None \<Rightarrow> None
          | Some b2 \<Rightarrow> Some (b1 @ b2, s\<lparr>spsc_out := spsc_out s + len\<rparr>)))"

text \<open>
  \<^verbatim>\<open>read\<close> and \<^verbatim>\<open>write\<close> as run by a thread that is not interfered with, from
  the state \<open>s\<close>: the outcome and the state the call leaves, or \<open>None\<close> when the call
  waits for ever. The result of \<^verbatim>\<open>read\<close> is the \<open>len\<close> bytes stored at \<^verbatim>\<open>buf\<close>.
  \<^verbatim>\<open>cv_.notify_one()\<close> changes nothing in the buffer.
\<close>

definition spsc_read ::
  "ringbuffer_spsc \<Rightarrow> u64 \<Rightarrow> (u8 list outcome \<times> ringbuffer_spsc) option" where
  "spsc_read s len =
     (if spsc_enable_cv s then
        (case wait_until (spsc_can_get s len) of
           None \<Rightarrow> None
         | Some _ \<Rightarrow>
            (case spsc_get s len of
               None \<Rightarrow> Some (Out_of_bounds, s)
             | Some (bytes, s') \<Rightarrow> Some (Completed bytes, s')))
      else
        (case wait_until (spsc_can_get s len) of
           None \<Rightarrow> None
         | Some _ \<Rightarrow>
            (case spsc_get s len of
               None \<Rightarrow> Some (Out_of_bounds, s)
             | Some (bytes, s') \<Rightarrow> Some (Completed bytes, s'))))"

definition spsc_write ::
  "ringbuffer_spsc \<Rightarrow> u8 list \<Rightarrow> u64 \<Rightarrow> (unit outcome \<times> ringbuffer_spsc) option" where
  "spsc_write s buf len =
     (if len > spsc_buf_size s then
        Some (Aborted (Write_len_gt_buf_size len (spsc_buf_size s)), s)
      else if spsc_enable_cv s then
        (case wait_until (spsc_can_put s len) of
           None \<Rightarrow> None
         | Some _ \<Rightarrow>
            (case spsc_put s buf len of
               None \<Rightarrow> Some (Out_of_bounds, s)
             | Some s' \<Rightarrow> Some (Completed (), s')))
      else
        (case wait_until (spsc_can_put s len) of
           None \<Rightarrow> None
         | Some _ \<Rightarrow>
            (case spsc_put s buf len of
               None \<Rightarrow> Some (Out_of_bounds, s)
             | Some s' \<Rightarrow> Some (Completed (), s'))))"

section \<open>\<^verbatim>\<open>ringbuffer_mpmc\<close>\<close>

definition ringbuffer_mpmc_ctor ::
  "(u64 \<Rightarrow> u8 list option) \<Rightarrow> u64 \<Rightarrow> bool \<Rightarrow> fatal + ringbuffer_mpmc" where
  "ringbuffer_mpmc_ctor malloc buf_size enable_cv =
     (case malloc buf_size of
        None \<Rightarrow> Inl Assert_buffer
      | Some mem \<Rightarrow>
          Inr \<lparr>mpmc_buffer = mem, mpmc_buf_size = buf_size, mpmc_enable_cv = enable_cv,
               mpmc_in = 0, mpmc_real_in = 0, mpmc_out = 0, mpmc_real_out = 0\<rparr>)"

definition mpmc_get_total_in :: "ringbuffer_mpmc \<Rightarrow> u64" where
  "mpmc_get_total_in s = mpmc_real_in s"

definition mpmc_get_total_out :: "ringbuffer_mpmc \<Rightarrow> u64" where
  "mpmc_get_total_out s = mpmc_real_out s"

text \<open>The two \<^verbatim>\<open>memcpy\<close> calls of \<^verbatim>\<open>put\<close> and of \<^verbatim>\<open>get\<close>, at the reserved cursor.\<close>

definition mpmc_copy_in :: "ringbuffer_mpmc \<Rightarrow> u64 \<Rightarrow> u8 list \<Rightarrow> u64 \<Rightarrow> ringbuffer_mpmc option" where
  "mpmc_copy_in s expected_in buf len =
     (let l = min len (mpmc_buf_size s - (expected_in AND (mpmc_buf_size s - 1))) in
      case memcpy_to (mpmc_buffer s) (unat (expected_in AND (mpmc_buf_size s - 1))) buf (unat l) of
        None \<Rightarrow> None
      | Some m1 \<Rightarrow>
         (case memcpy_to m1 0 (drop (unat l) buf) (unat (len - l)) of
            None \<Rightarrow> None
          | Some m2 \<Rightarrow> Some (s\<lparr>mpmc_buffer := m2\<rparr>)))"

definition mpmc_copy_out :: "ringbuffer_mpmc \<Rightarrow> u64 \<Rightarrow> u64 \<Rightarrow> u8 list option" where
  "mpmc_copy_out s expected_out len =
     (let l = min len (mpmc_buf_size s - (expected_out AND (mpmc_buf_size s - 1))) in
      case memcpy_from (mpmc_buffer s) (unat (expected_out AND (mpmc_buf_size s - 1))) (unat l) of
        None \<Rightarrow> None
      | Some b1 \<Rightarrow>
         (case memcpy_from (mpmc_buffer s) 0 (unat (len - l)) of
            None \<Rightarrow> None
          | Some b2 \<Rightarrow> Some (b1 @ b2)))"

text \<open>
  The commit loop
  \<^verbatim>\<open>while (!real.compare_exchange_weak(expected, expected + len)) expected = bak;\<close>
  on an atomic holding \<open>cur\<close>; the result is the value it leaves in the atomic.
\<close>

partial_function (option) commit_loop :: "u64 \<Rightarrow> u64 \<Rightarrow> u64 \<Rightarrow> u64 \<Rightarrow> u64 option" where
  "commit_loop cur expected bak len =
     (case compare_exchange cur expected (expected + len) of
        (ok, cur', expected') \<Rightarrow>
          if \<not> ok then commit_loop cur' bak bak len else Some cur')"

partial_function (option) mpmc_put ::
  "ringbuffer_mpmc \<Rightarrow> u8 list \<Rightarrow> u64 \<Rightarrow> (unit outcome \<times> ringbuffer_mpmc) option" where
  "mpmc_put s buf len =
     (case (if mpmc_enable_cv s
            then wait_until (mpmc_in s + len \<le> mpmc_buf_size s + mpmc_real_out s)
            else Some ()) of
        None \<Rightarrow> None
      | Some _ \<Rightarrow>
         (let expected_in = mpmc_in s in
          if expected_in + len > mpmc_buf_size s + mpmc_real_out s then mpmc_put s buf len
          else
            (case compare_exchange (mpmc_in s) expected_in (expected_in + len) of
               (ok, in', expected_in') \<Rightarrow>
                 if \<not> ok then mpmc_put (s\<lparr>mpmc_in := in'\<rparr>) buf len
                 else
                   (case mpmc_copy_in (s\<lparr>mpmc_in := in'\<rparr>) expected_in' buf len of
                      None \<Rightarrow> Some (Out_of_bounds, s\<lparr>mpmc_in := in'\<rparr>)
                    | Some s2 \<Rightarrow>
                       (case commit_loop (mpmc_real_in s2) expected_in' expected_in' len of
                          None \<Rightarrow> None
                        | Some real_in' \<Rightarrow>
                            Some (Completed (), s2\<lparr>mpmc_real_in := real_in'\<rparr>))))))"

partial_function (option) mpmc_get ::
  "ringbuffer_mpmc \<Rightarrow> u64 \<Rightarrow> (u8 list outcome \<times> ringbuffer_mpmc) option" where
  "mpmc_get s len =
     (case (if mpmc_enable_cv s
            then wait_until (mpmc_real_in s \<ge> mpmc_out s + len)
            else Some ()) of
        None \<Rightarrow> None
      | Some _ \<Rightarrow>
         (let expected_out = mpmc_out s in
          if mpmc_real_in s < expected_out + len then mpmc_get s len
          else
            (case compare_exchange (mpmc_out s) expected_out (expected_out + len) of
               (ok, out', expected_out') \<Rightarrow>
                 if \<not> ok then mpmc_get (s\<lparr>mpmc_out := out'\<rparr>) len
                 else
                   (case mpmc_copy_out (s\<lparr>mpmc_out := out'\<rparr>) expected_out' len of
                      None \<Rightarrow> Some (Out_of_bounds, s\<lparr>mpmc_out := out'\<rparr>)
                    | Some bytes \<Rightarrow>
                       (case commit_loop (mpmc_real_out s) expected_out' expected_out' len of
                          None \<Rightarrow> None
                        | Some real_out' \<Rightarrow>
                            Some (Completed bytes,
                                  s\<lparr>mpmc_out := out', mpmc_real_out := real_out'\<rparr>))))))"

definition mpmc_read ::
  "ringbuffer_mpmc \<Rightarrow> u64 \<Rightarrow> (u8 list outcome \<times> ringbuffer_mpmc) option" where
  "mpmc_read s len = mpmc_get s len"

definition mpmc_write ::
  "ringbuffer_mpmc \<Rightarrow> u8 list \<Rightarrow> u64 \<Rightarrow> (unit outcome \<times> ringbuffer_mpmc) option" where
  "mpmc_write s buf len = mpmc_put s buf len"

section \<open>\<^verbatim>\<open>ringbuffer_mpmc\<close>, one atomic access at a time\<close>

text \<open>
  For calls that run concurrently, \<^verbatim>\<open>put\<close> and \<^verbatim>\<open>get\<close> are cut at their accesses to
  the atomics, which are taken to be sequentially consistent. A call is at one of these
  places: at the wait on the condition variable (lines 152-157 of \<^verbatim>\<open>put\<close>), before the
  load of the reservation cursor (159), before the test against the commit cursor of the
  other side (161), before the compare-and-swap of the reservation cursor (162), before
  the two \<^verbatim>\<open>memcpy\<close> (166-169), in the commit loop (172-175, with the values of
  \<^verbatim>\<open>expected_in\<close> and \<^verbatim>\<open>expected_in_bak\<close>), before the notification, or it has
  returned. The two \<^verbatim>\<open>memcpy\<close> of a call are one step; a waiting call whose predicate
  is false stays where it is.
\<close>

datatype pc =
    At_wait | At_load | At_check u64 | At_cas u64 | At_copy u64 | At_commit u64 u64
  | At_notify | Returned | Faulted

fun put_step :: "ringbuffer_mpmc \<Rightarrow> u8 list \<Rightarrow> u64 \<Rightarrow> pc \<Rightarrow> ringbuffer_mpmc \<times> pc" where
  "put_step s buf len At_wait =
     (if mpmc_enable_cv s \<and> \<not> mpmc_in s + len \<le> mpmc_buf_size s + mpmc_real_out s
      then (s, At_wait) else (s, At_load))"
| "put_step s buf len At_load = (s, At_check (mpmc_in s))"
| "put_step s buf len (At_check expected_in) =
     (if expected_in + len > mpmc_buf_size s + mpmc_real_out s
      then (s, At_wait) else (s, At_cas expected_in))"
| "put_step s buf len (At_cas expected_in) =
     (case compare_exchange (mpmc_in s) expected_in (expected_in + len) of
        (ok, in', expected_in') \<Rightarrow>
          if \<not> ok then (s\<lparr>mpmc_in := in'\<rparr>, At_wait)
          else (s\<lparr>mpmc_in := in'\<rparr>, At_copy expected_in'))"
| "put_step s buf len (At_copy expected_in) =
     (case mpmc_copy_in s expected_in buf len of
        None \<Rightarrow> (s, Faulted)
      | Some s2 \<Rightarrow> (s2, At_commit expected_in expected_in))"
| "put_step s buf len (At_commit expected_in bak) =
     (case compare_exchange (mpmc_real_in s) expected_in (expected_in + len) of
        (ok, real_in', expected_in') \<Rightarrow>
          if \<not> ok then (s\<lparr>mpmc_real_in := real_in'\<rparr>, At_commit bak bak)
          else (s\<lparr>mpmc_real_in := real_in'\<rparr>, At_notify))"
| "put_step s buf len At_notify = (s, Returned)"
| "put_step s buf len Returned = (s, Returned)"
| "put_step s buf len Faulted = (s, Faulted)"

fun get_step ::
  "ringbuffer_mpmc \<Rightarrow> u64 \<Rightarrow> pc \<Rightarrow> u8 list \<Rightarrow> ringbuffer_mpmc \<times> pc \<times> u8 list" where
  "get_step s len At_wait bytes =
     (if mpmc_enable_cv s \<and> \<not> mpmc_real_in s \<ge> mpmc_out s + len
      then (s, At_wait, bytes) else (s, At_load, bytes))"
| "get_step s len At_load bytes = (s, At_check (mpmc_out s), bytes)"
| "get_step s len (At_check expected_out) bytes =
     (if mpmc_real_in s < expected_out + len
      then (s, At_wait, bytes) else (s, At_cas expected_out, bytes))"
| "get_step s len (At_cas expected_out) bytes =
     (case compare_exchange (mpmc_out s) expected_out (expected_out + len) of
        (ok, out', expected_out') \<Rightarrow>
          if \<not> ok then (s\<lparr>mpmc_out := out'\<rparr>, At_wait, bytes)
          else (s\<lparr>mpmc_out := out'\<rparr>, At_copy expected_out', bytes))"
| "get_step s len (At_copy expected_out) bytes =
     (case mpmc_copy_out s expected_out len of
        None \<Rightarrow> (s, Faulted, bytes)
      | Some b \<Rightarrow> (s, At_commit expected_out expected_out, b))"
| "get_step s len (At_commit expected_out bak) bytes =
     (case compare_exchange (mpmc_real_out s) expected_out (expected_out + len) of
        (ok, real_out', expected_out') \<Rightarrow>
          if \<not> ok then (s\<lparr>mpmc_real_out := real_out'\<rparr>, At_commit bak bak, bytes)
          else (s\<lparr>mpmc_real_out := real_out'\<rparr>, At_notify, bytes))"
| "get_step s len At_notify bytes = (s, Returned, bytes)"
| "get_step s len Returned bytes = (s, Returned, bytes)"
| "get_step s len Faulted bytes = (s, Faulted, bytes)"

datatype thread = Put_thread "u8 list" u64 pc | Get_thread u64 pc "u8 list"

text \<open>
  A thread runs one call: a \<^verbatim>\<open>write\<close> of \<open>len\<close> bytes at \<open>buf\<close>, or a \<^verbatim>\<open>read\<close> of
  \<open>len\<close> bytes, with the bytes it has copied out. \<open>mpmc_step c i\<close> lets thread \<open>i\<close> take
  its next step, \<open>mpmc_exec\<close> follows a schedule.
\<close>

fun thread_step :: "ringbuffer_mpmc \<Rightarrow> thread \<Rightarrow> ringbuffer_mpmc \<times> thread" where
  "thread_step s (Put_thread buf len p) =
     (case put_step s buf len p of (s', p') \<Rightarrow> (s', Put_thread buf len p'))"
| "thread_step s (Get_thread len p bytes) =
     (case get_step s len p bytes of (s', p', bytes') \<Rightarrow> (s', Get_thread len p' bytes'))"

fun mpmc_step ::
  "ringbuffer_mpmc \<times> thread list \<Rightarrow> nat \<Rightarrow> ringbuffer_mpmc \<times> thread list" where
  "mpmc_step (s, ts) i =
     (if i < length ts
      then (case thread_step s (ts ! i) of (s', t') \<Rightarrow> (s', ts[i := t']))
      else (s, ts))"

fun mpmc_exec ::
  "ringbuffer_mpmc \<times> thread list \<Rightarrow> nat list \<Rightarrow> ringbuffer_mpmc \<times> thread list" where
  "mpmc_exec c [] = c"
| "mpmc_exec c (i # sched) = mpmc_exec (mpmc_step c i) sched"

section \<open>Notions used in the statements\<close>

text \<open>The capacity is a power of two that fits into 64 bits.\<close>

definition power_of_two :: "u64 \<Rightarrow> bool" where
  "power_of_two c = (\<exists>k\<in>{..<64}. c = 2 ^ k)"

text \<open>An allocator that always succeeds and returns zeroed memory, for concrete runs.\<close>

definition malloc_zeroed :: "u64 \<Rightarrow> u8 list option" where
  "malloc_zeroed n = Some (replicate (unat n) 0)"

subsection \<open>The copy, in the words of the specification\<close>

text \<open>
  ``Copies \<open>n\<close> bytes from \<open>src\<close> into storage starting at offset \<open>pos mod capacity\<close>,
  wrapping to offset 0 if the range crosses the end of storage'': byte \<open>i\<close> goes to
  offset \<open>(pos + i) mod capacity\<close>. The copy out of the storage reads the same offsets.
\<close>

definition ring_write :: "u8 list \<Rightarrow> nat \<Rightarrow> u8 list \<Rightarrow> nat \<Rightarrow> u8 list" where
  "ring_write mem pos src n = fold (\<lambda>i m. m[(pos + i) mod length m := src ! i]) [0..<n] mem"

definition ring_read :: "u8 list \<Rightarrow> nat \<Rightarrow> nat \<Rightarrow> u8 list" where
  "ring_read mem pos n = map (\<lambda>i. mem ! ((pos + i) mod length mem)) [0..<n]"

subsection \<open>States and runs of the SPSC buffer\<close>

text \<open>The storage has \<open>buf_size_\<close> bytes and the capacity is a power of two.\<close>

definition spsc_wf :: "ringbuffer_spsc \<Rightarrow> bool" where
  "spsc_wf s = (length (spsc_buffer s) = unat (spsc_buf_size s) \<and> power_of_two (spsc_buf_size s))"

text \<open>\<open>out \<le> in \<le> out + capacity\<close>, the sum taken in the natural numbers.\<close>

definition spsc_inv :: "ringbuffer_spsc \<Rightarrow> bool" where
  "spsc_inv s = (unat (spsc_out s) \<le> unat (spsc_in s) \<and>
                 unat (spsc_in s) \<le> unat (spsc_out s) + unat (spsc_buf_size s))"

text \<open>The bytes written and not yet read: those at the positions \<open>out, \<dots>, in - 1\<close>.\<close>

definition spsc_contents :: "ringbuffer_spsc \<Rightarrow> u8 list" where
  "spsc_contents s =
     ring_read (spsc_buffer s) (unat (spsc_out s)) (unat (spsc_in s) - unat (spsc_out s))"

text \<open>
  A run is the sequence of the calls of the writer and of the reader in the order in
  which they complete, each call starting in the state the previous one left (under the
  lock in blocking mode; in spinning mode a call that overlaps another one touches a
  disjoint part of the storage). \<open>spsc_run\<close> gives the chunks the reads returned and the
  final state, and \<open>None\<close> when a call of the sequence does not complete there: it
  waits for ever, aborts or leaves the memory.
\<close>

datatype call = Write "u8 list" u64 | Read u64

fun spsc_run ::
  "ringbuffer_spsc \<Rightarrow> call list \<Rightarrow> (u8 list list \<times> ringbuffer_spsc) option" where
  "spsc_run s [] = Some ([], s)"
| "spsc_run s (Write buf len # cs) =
     (case spsc_write s buf len of
        Some (Completed _, s') \<Rightarrow> spsc_run s' cs
      | _ \<Rightarrow> None)"
| "spsc_run s (Read len # cs) =
     (case spsc_read s len of
        Some (Completed bytes, s') \<Rightarrow>
          (case spsc_run s' cs of
             Some (outs, s'') \<Rightarrow> Some (bytes # outs, s'')
           | None \<Rightarrow> None)
      | _ \<Rightarrow> None)"

fun call_len :: "call \<Rightarrow> u64" where
  "call_len (Write buf len) = len"
| "call_len (Read len) = len"

fun bytes_written :: "call list \<Rightarrow> nat" where
  "bytes_written [] = 0"
| "bytes_written (Write buf len # cs) = unat len + bytes_written cs"
| "bytes_written (Read len # cs) = bytes_written cs"

fun chunks_written :: "call list \<Rightarrow> u8 list list" where
  "chunks_written [] = []"
| "chunks_written (Write buf len # cs) = take (unat len) buf # chunks_written cs"
| "chunks_written (Read len # cs) = chunks_written cs"

fun read_lens :: "call list \<Rightarrow> nat list" where
  "read_lens [] = []"
| "read_lens (Write buf len # cs) = read_lens cs"
| "read_lens (Read len # cs) = unat len # read_lens cs"

text \<open>
  The order in which the reader takes each chunk before the writer writes the next one:
  the chunks \<open>c\<^sub>1, c\<^sub>2, \<dots>\<close> are written and read as
  \<^verbatim>\<open>write(c1, |c1|); read(|c1|); write(c2, |c2|); read(|c2|); ...\<close>
\<close>

fun alternate :: "u8 list list \<Rightarrow> call list" where
  "alternate [] = []"
| "alternate (c # cs) = Write c (of_nat (length c)) # Read (of_nat (length c)) # alternate cs"

subsection \<open>States and runs of the MPMC buffer, one call at a time\<close>

definition mpmc_wf :: "ringbuffer_mpmc \<Rightarrow> bool" where
  "mpmc_wf s = (length (mpmc_buffer s) = unat (mpmc_buf_size s) \<and> power_of_two (mpmc_buf_size s))"

text \<open>
  \<open>committed_out \<le> reserved_out \<le> committed_in \<le> reserved_in \<le> committed_out + capacity\<close>,
  that is \<open>real_out_ \<le> out_ \<le> real_in_ \<le> in_ \<le> real_out_ + buf_size_\<close>, the sum taken in
  the natural numbers.
\<close>

definition mpmc_chain :: "ringbuffer_mpmc \<Rightarrow> bool" where
  "mpmc_chain s =
     (unat (mpmc_real_out s) \<le> unat (mpmc_out s) \<and>
      unat (mpmc_out s) \<le> unat (mpmc_real_in s) \<and>
      unat (mpmc_real_in s) \<le> unat (mpmc_in s) \<and>
      unat (mpmc_in s) \<le> unat (mpmc_real_out s) + unat (mpmc_buf_size s))"

text \<open>No call is in flight: every reservation has been committed.\<close>

definition mpmc_quiescent :: "ringbuffer_mpmc \<Rightarrow> bool" where
  "mpmc_quiescent s = (mpmc_real_in s = mpmc_in s \<and> mpmc_real_out s = mpmc_out s)"

text \<open>
  A sequence of calls each of which runs to completion before the next one starts.
\<close>

fun mpmc_run ::
  "ringbuffer_mpmc \<Rightarrow> call list \<Rightarrow> (u8 list list \<times> ringbuffer_mpmc) option" where
  "mpmc_run s [] = Some ([], s)"
| "mpmc_run s (Write buf len # cs) =
     (case mpmc_write s buf len of
        Some (Completed _, s') \<Rightarrow> mpmc_run s' cs
      | _ \<Rightarrow> None)"
| "mpmc_run s (Read len # cs) =
     (case mpmc_read s len of
        Some (Completed bytes, s') \<Rightarrow>
          (case mpmc_run s' cs of
             Some (outs, s'') \<Rightarrow> Some (bytes # outs, s'')
           | None \<Rightarrow> None)
      | _ \<Rightarrow> None)"

subsection \<open>Concurrent calls on the MPMC buffer\<close>

text \<open>
  The thread that runs a call, before its first step; the length of its call; the
  bytes of a write that has not reserved its range yet.
\<close>

fun start :: "call \<Rightarrow> thread" where
  "start (Write buf len) = Put_thread buf len At_wait"
| "start (Read len) = Get_thread len At_wait []"

fun thread_len :: "thread \<Rightarrow> u64" where
  "thread_len (Put_thread buf len p) = len"
| "thread_len (Get_thread len p bytes) = len"

fun unreserved :: "thread \<Rightarrow> nat" where
  "unreserved (Put_thread buf len At_wait) = unat len"
| "unreserved (Put_thread buf len At_load) = unat len"
| "unreserved (Put_thread buf len (At_check e)) = unat len"
| "unreserved (Put_thread buf len (At_cas e)) = unat len"
| "unreserved t = 0"

text \<open>
  What a call knows about the cursors at each place: the cursor it loaded has not been
  passed by the current one, the test it passed still holds, the range it reserved ends
  before the reservation cursor.
\<close>

fun thread_ok :: "ringbuffer_mpmc \<Rightarrow> thread \<Rightarrow> bool" where
  "thread_ok s (Put_thread buf len (At_check e)) = (unat e \<le> unat (mpmc_in s))"
| "thread_ok s (Put_thread buf len (At_cas e)) =
     (unat e + unat len \<le> unat (mpmc_buf_size s) + unat (mpmc_real_out s))"
| "thread_ok s (Put_thread buf len (At_copy e)) = (unat e + unat len \<le> unat (mpmc_in s))"
| "thread_ok s (Put_thread buf len (At_commit e bak)) =
     (e = bak \<and> unat bak + unat len \<le> unat (mpmc_in s))"
| "thread_ok s (Get_thread len (At_check e) bytes) = (unat e \<le> unat (mpmc_out s))"
| "thread_ok s (Get_thread len (At_cas e) bytes) = (unat e + unat len \<le> unat (mpmc_real_in s))"
| "thread_ok s (Get_thread len (At_copy e) bytes) = (unat e + unat len \<le> unat (mpmc_out s))"
| "thread_ok s (Get_thread len (At_commit e bak) bytes) =
     (e = bak \<and> unat bak + unat len \<le> unat (mpmc_out s))"
| "thread_ok s t = True"

text \<open>
  The invariant of a configuration: the chain of the cursors, every call of length at
  most the capacity and consistent with the cursors, and the reservation cursor \<open>in_\<close>
  together with the bytes still to be reserved more than a capacity away from \<open>2^64\<close>.
\<close>

definition mpmc_inv :: "ringbuffer_mpmc \<times> thread list \<Rightarrow> bool" where
  "mpmc_inv c =
     (case c of (s, ts) \<Rightarrow>
        mpmc_chain s \<and>
        (\<forall>t\<in>set ts. thread_len t \<le> mpmc_buf_size s \<and> thread_ok s t) \<and>
        unat (mpmc_in s) + sum_list (map unreserved ts) + unat (mpmc_buf_size s) < 2 ^ 64)"


text \<open>No cursor goes back and the capacity stays.\<close>

definition grows :: "ringbuffer_mpmc \<Rightarrow> ringbuffer_mpmc \<Rightarrow> bool" where
  "grows s s' =
     (mpmc_buf_size s' = mpmc_buf_size s \<and>
      unat (mpmc_in s) \<le> unat (mpmc_in s') \<and>
      unat (mpmc_real_in s) \<le> unat (mpmc_real_in s') \<and>
      unat (mpmc_out s) \<le> unat (mpmc_out s') \<and>
      unat (mpmc_real_out s) \<le> unat (mpmc_real_out s'))"

text \<open>
  The range of positions a call has reserved and not committed yet, for writers and for
  readers. \<open>tiles rng ts lo hi\<close>: the ranges of the threads \<open>ts\<close> lie in \<open>[lo, hi)\<close>,
  are not empty, are pairwise disjoint and cover \<open>[lo, hi)\<close>.
\<close>

fun put_range :: "thread \<Rightarrow> (nat \<times> nat) option" where
  "put_range (Put_thread buf len (At_copy e)) = Some (unat e, unat e + unat len)"
| "put_range (Put_thread buf len (At_commit e bak)) = Some (unat bak, unat bak + unat len)"
| "put_range t = None"

fun get_range :: "thread \<Rightarrow> (nat \<times> nat) option" where
  "get_range (Get_thread len (At_copy e) bytes) = Some (unat e, unat e + unat len)"
| "get_range (Get_thread len (At_commit e bak) bytes) = Some (unat bak, unat bak + unat len)"
| "get_range t = None"

definition tiles :: "(thread \<Rightarrow> (nat \<times> nat) option) \<Rightarrow> thread list \<Rightarrow> nat \<Rightarrow> nat \<Rightarrow> bool" where
  "tiles rng ts lo hi =
     ((\<forall>i<length ts. \<forall>a b. rng (ts ! i) = Some (a, b) \<longrightarrow> lo \<le> a \<and> a < b \<and> b \<le> hi) \<and>
      (\<forall>i<length ts. \<forall>j<length ts. \<forall>a b c d.
          i \<noteq> j \<and> rng (ts ! i) = Some (a, b) \<and> rng (ts ! j) = Some (c, d) \<longrightarrow> b \<le> c \<or> d \<le> a) \<and>
      (\<forall>p. lo \<le> p \<and> p < hi \<longrightarrow>
          (\<exists>i<length ts. \<exists>a b. rng (ts ! i) = Some (a, b) \<and> a \<le> p \<and> p < b)))"

text \<open>
  A call of positive length whose buffer holds \<open>len\<close> bytes, and the configurations in
  which the reserved ranges tile the gap between the commit cursor and the reservation
  cursor, on both sides.
\<close>

fun call_fit :: "call \<Rightarrow> bool" where
  "call_fit (Write buf len) = (0 < len \<and> unat len \<le> length buf)"
| "call_fit (Read len) = (0 < len)"

fun thread_fit :: "thread \<Rightarrow> bool" where
  "thread_fit (Put_thread buf len p) = (0 < len \<and> unat len \<le> length buf \<and> p \<noteq> Faulted)"
| "thread_fit (Get_thread len p bytes) = (0 < len \<and> p \<noteq> Faulted)"

definition mpmc_tiled :: "ringbuffer_mpmc \<times> thread list \<Rightarrow> bool" where
  "mpmc_tiled c =
     (case c of (s, ts) \<Rightarrow>
        mpmc_wf s \<and> (\<forall>t\<in>set ts. thread_fit t) \<and>
        tiles put_range ts (unat (mpmc_real_in s)) (unat (mpmc_in s)) \<and>
        tiles get_range ts (unat (mpmc_real_out s)) (unat (mpmc_out s)))"

section \<open>Basic facts\<close>

lemma wait_until_True: "wait_until True = Some ()"
  by (simp add: wait_until.simps)

lemma wait_until_Some: "wait_until p = Some y \<Longrightarrow> p"
  by (rule wait_until.raw_induct[rotated 1, where P = "\<lambda>p y. p"]) (auto split: if_splits)

lemma wait_until_False: "wait_until False = None"
  using wait_until_Some[of False] by (cases "wait_until False") auto

lemma wait_until_eq: "wait_until p = (if p then Some () else None)"
  by (simp add: wait_until_True wait_until_False)


lemma commit_loop_Some: "commit_loop cur e bak len = Some r \<Longrightarrow> (cur = e \<or> cur = bak)"
  apply (rule commit_loop.raw_induct[rotated 1, where P = "\<lambda>cur e bak len r. cur = e \<or> cur = bak"])
   apply assumption
  apply (simp add: compare_exchange_def split: if_splits)
  apply blast
  done

lemma commit_loop_eq: "commit_loop cur e e len = (if cur = e then Some (e + len) else None)"
proof (cases "cur = e")
  case True
  then show ?thesis by (subst commit_loop.simps) (simp add: compare_exchange_def)
next
  case False
  then show ?thesis using commit_loop_Some[of cur e e len] by (cases "commit_loop cur e e len") auto
qed

subsection \<open>Words\<close>

lemma and_pow2_minus1: "(x::u64) AND (2 ^ k - 1) = take_bit k x"
  by (simp flip: mask_eq_exp_minus_1 take_bit_eq_mask)

lemma unat_take_bit_mod: "unat (take_bit k (x::u64)) = unat x mod 2 ^ k"
  unfolding unsigned_take_bit_eq by (simp add: take_bit_eq_mod)

lemma unat_pow2: 
  assumes "k < 64" shows "unat ((2::u64) ^ k) = 2 ^ k"
proof -
  have "(2::nat) ^ k < 2 ^ 64" by (rule power_strict_increasing) (use assms in simp_all)
  moreover have "unat ((2::u64) ^ k) = 2 ^ k mod 2 ^ 64"
    using unat_of_nat[where 'a=64 and x="2 ^ k"] by simp
  ultimately show ?thesis by simp
qed

lemma pump_and: "(16 * of_nat k :: u64) AND 15 = 0"
proof -
  have "(16 * of_nat k :: u64) AND (2 ^ 4 - 1) = take_bit 4 (push_bit 4 (of_nat k))"
    unfolding and_pow2_minus1 by (simp add: push_bit_eq_mult mult.commute)
  then show ?thesis by (simp add: take_bit_push_bit)
qed

subsection \<open>The two copies around the end of the storage\<close>

lemma memcpy_to_wrap:
  assumes off: "off < length mem" and n: "n \<le> length mem" and src: "n \<le> length src"
    and l: "l = min n (length mem - off)"
  shows "\<exists>m1 m2. memcpy_to mem off src l = Some m1 \<and>
           memcpy_to m1 0 (drop l src) (n - l) = Some m2 \<and> length m2 = length mem \<and>
           (\<forall>i<length mem. m2 ! ((off + i) mod length mem) =
               (if i < n then src ! i else mem ! ((off + i) mod length mem)))"
proof -
  define m1 where "m1 = take off mem @ take l src @ drop (off + l) mem"
  define m2 where "m2 = take (n - l) (drop l src) @ drop (n - l) m1"
  have ll: "l \<le> n" "off + l \<le> length mem" "l \<le> length src" "n - l \<le> off"
    using off n src l by auto
  have len1: "length m1 = length mem" using ll by (simp add: m1_def)
  have 1: "memcpy_to mem off src l = Some m1"
    using ll by (simp add: memcpy_to_def m1_def)
  have 2: "memcpy_to m1 0 (drop l src) (n - l) = Some m2"
    using ll off n src len1 by (simp add: memcpy_to_def m2_def)
  have len2: "length m2 = length mem" using ll off n src len1 by (simp add: m2_def)
  have lenA: "length (take (n - l) (drop l src)) = n - l" using ll src by simp
  have lenB: "length (take off mem) = off" using off by simp
  have lenC: "length (take l src) = l" using ll by simp
  have m2_lo: "m2 ! j = src ! (l + j)" if "j < n - l" for j
    using that lenA ll src by (simp add: m2_def nth_append)
  have m2_hi: "m2 ! j = m1 ! j" if "n - l \<le> j" "j < length mem" for j
    using that lenA len1 by (simp add: m2_def nth_append)
  have m1_lo: "m1 ! j = mem ! j" if "j < off" for j
    using that lenB by (simp add: m1_def nth_append)
  have m1_mid: "m1 ! (off + j) = src ! j" if "j < l" for j
    using that lenB lenC by (simp add: m1_def nth_append)
  have m1_hi: "m1 ! (off + j) = mem ! (off + j)" if "l \<le> j" "off + j < length mem" for j
    using that lenB lenC by (simp add: m1_def nth_append add.assoc)
  have 3: "m2 ! ((off + i) mod length mem) =
               (if i < n then src ! i else mem ! ((off + i) mod length mem))" if i: "i < length mem" for i
  proof (cases "off + i < length mem")
    case True
    then have idx: "(off + i) mod length mem = off + i" by simp
    have a: "m2 ! (off + i) = m1 ! (off + i)" using ll True by (intro m2_hi) simp_all
    show ?thesis
    proof (cases "i < n")
      case T2: True
      then have "i < l" using True l by simp
      then show ?thesis using a idx T2 m1_mid by simp
    next
      case F2: False
      then have "l \<le> i" using ll by simp
      then show ?thesis using a idx F2 m1_hi True by simp
    qed
  next
    case False
    then have idx: "(off + i) mod length mem = off + i - length mem"
      using off i by (simp add: mod_if)
    show ?thesis
    proof (cases "i < n")
      case True
      then have leq: "l = length mem - off" using False l by simp
      have "off + i - length mem < n - l" using True False leq off by arith
      then have "m2 ! (off + i - length mem) = src ! (l + (off + i - length mem))" by (rule m2_lo)
      moreover have "l + (off + i - length mem) = i" using leq False off by arith
      ultimately show ?thesis using idx True by simp
    next
      case F2: False
      have "l = n \<or> l = length mem - off" using l by (auto simp: min_def)
      then have "n - l \<le> off + i - length mem" using F2 False ll off by arith
      moreover have lt: "off + i - length mem < off" using i False by simp
      ultimately have "m2 ! (off + i - length mem) = m1 ! (off + i - length mem)" 
        using off by (intro m2_hi) simp_all
      also have "\<dots> = mem ! (off + i - length mem)" using lt by (rule m1_lo)
      finally show ?thesis using idx F2 by simp
    qed
  qed
  show ?thesis using 1 2 len2 3 by blast
qed


lemma memcpy_from_wrap:
  assumes off: "off < length mem" and n: "n \<le> length mem"
    and l: "l = min n (length mem - off)"
  shows "\<exists>b1 b2. memcpy_from mem off l = Some b1 \<and> memcpy_from mem 0 (n - l) = Some b2 \<and>
           length (b1 @ b2) = n \<and>
           (\<forall>i<n. (b1 @ b2) ! i = mem ! ((off + i) mod length mem))"
proof -
  define b1 where "b1 = take l (drop off mem)"
  define b2 where "b2 = take (n - l) mem"
  have ll: "l \<le> n" "off + l \<le> length mem" "n - l \<le> off"
    using off n l by auto
  have 1: "memcpy_from mem off l = Some b1" using ll by (simp add: memcpy_from_def b1_def)
  have 2: "memcpy_from mem 0 (n - l) = Some b2" using ll n by (simp add: memcpy_from_def b2_def)
  have len1: "length b1 = l" using ll by (simp add: b1_def)
  have len: "length (b1 @ b2) = n" using ll n by (simp add: b1_def b2_def)
  have 3: "(b1 @ b2) ! i = mem ! ((off + i) mod length mem)" if i: "i < n" for i
  proof (cases "off + i < length mem")
    case True
    then have "i < l" using l i by simp
    then show ?thesis using True ll len1 by (simp add: nth_append) (simp add: b1_def)
  next
    case False
    then have idx: "(off + i) mod length mem = off + i - length mem"
      using off i n by (simp add: mod_if)
    have leq: "l = length mem - off" using False l i by simp
    have li: "l \<le> i" using leq False by arith
    then have "i - l < n - l" using i by arith
    then have b2i: "b2 ! (i - l) = mem ! (i - l)" by (simp add: b2_def)
    have "(b1 @ b2) ! i = b2 ! (i - l)" using li len1 by (simp add: nth_append)
    also note b2i
    also have "i - l = off + i - length mem" using leq False off by arith
    finally show ?thesis using idx by simp
  qed
  show ?thesis using 1 2 len 3 by blast
qed

lemma ring_offsets:
  assumes p2: "power_of_two bs"
  shows "unat (pos AND (bs - 1)) = unat pos mod unat bs"
    and "0 < unat bs"
    and "unat (min len (bs - (pos AND (bs - 1)))) = min (unat len) (unat bs - unat pos mod unat bs)"
    and "unat (len - min len (bs - (pos AND (bs - 1)))) =
           unat len - min (unat len) (unat bs - unat pos mod unat bs)"
proof -
  from p2 obtain k where k: "k < 64" "bs = 2 ^ k" by (auto simp: power_of_two_def)
  have cap: "unat bs = 2 ^ k" using k by (simp add: unat_pow2)
  show off: "unat (pos AND (bs - 1)) = unat pos mod unat bs"
    using k cap by (simp add: and_pow2_minus1 unat_take_bit_mod)
  show pos: "0 < unat bs" using cap by simp
  have "unat (pos AND (bs - 1)) < unat bs" using off pos by simp
  then have "pos AND (bs - 1) \<le> bs" by (simp add: word_le_nat_alt)
  then have rem: "unat (bs - (pos AND (bs - 1))) = unat bs - unat pos mod unat bs"
    using off by (simp add: unat_sub)
  show l: "unat (min len (bs - (pos AND (bs - 1)))) = min (unat len) (unat bs - unat pos mod unat bs)"
    using rem by (simp add: min_def word_le_nat_alt)
  have "min len (bs - (pos AND (bs - 1))) \<le> len" by simp
  then show "unat (len - min len (bs - (pos AND (bs - 1)))) =
           unat len - min (unat len) (unat bs - unat pos mod unat bs)"
    using l by (simp add: unat_sub)
qed

lemma ring_copy_in:
  assumes len_mem: "length mem = unat bs" and p2: "power_of_two bs"
    and len: "len \<le> bs" and buf: "unat len \<le> length buf"
  shows "\<exists>m1 m2.
      memcpy_to mem (unat (pos AND (bs - 1))) buf (unat (min len (bs - (pos AND (bs - 1))))) = Some m1 \<and>
      memcpy_to m1 0 (drop (unat (min len (bs - (pos AND (bs - 1))))) buf)
         (unat (len - min len (bs - (pos AND (bs - 1))))) = Some m2 \<and>
      length m2 = length mem \<and>
      (\<forall>i<unat bs. m2 ! ((unat pos + i) mod unat bs) =
          (if i < unat len then buf ! i else mem ! ((unat pos + i) mod unat bs)))"
proof -
  note ro = ring_offsets(1)[OF p2, of pos] ring_offsets(2)[OF p2]
    ring_offsets(3)[OF p2, of len pos] ring_offsets(4)[OF p2, of len pos]
  have offlt: "unat pos mod unat bs < length mem" using ro(2) len_mem by simp
  have n: "unat len \<le> length mem" using len len_mem by (simp add: word_le_nat_alt)
  have idx: "(unat pos mod unat bs + i) mod unat bs = (unat pos + i) mod unat bs" for i
    by (simp add: mod_add_left_eq)
  from memcpy_to_wrap[OF offlt n buf refl]
  show ?thesis unfolding ro(1) ro(3) ro(4) len_mem idx .
qed

lemma ring_copy_out:
  assumes len_mem: "length mem = unat bs" and p2: "power_of_two bs"
    and len: "len \<le> bs"
  shows "\<exists>b1 b2.
      memcpy_from mem (unat (pos AND (bs - 1))) (unat (min len (bs - (pos AND (bs - 1))))) = Some b1 \<and>
      memcpy_from mem 0 (unat (len - min len (bs - (pos AND (bs - 1))))) = Some b2 \<and>
      length (b1 @ b2) = unat len \<and>
      (\<forall>i<unat len. (b1 @ b2) ! i = mem ! ((unat pos + i) mod unat bs))"
proof -
  note ro = ring_offsets(1)[OF p2, of pos] ring_offsets(2)[OF p2]
    ring_offsets(3)[OF p2, of len pos] ring_offsets(4)[OF p2, of len pos]
  have offlt: "unat pos mod unat bs < length mem" using ro(2) len_mem by simp
  have n: "unat len \<le> length mem" using len len_mem by (simp add: word_le_nat_alt)
  have idx: "(unat pos mod unat bs + i) mod unat bs = (unat pos + i) mod unat bs" for i
    by (simp add: mod_add_left_eq)
  from memcpy_from_wrap[OF offlt n refl]
  show ?thesis unfolding ro(1) ro(3) ro(4) len_mem idx .
qed

subsection \<open>Calls that wait for ever\<close>

lemma mpmc_put_Some:
  "mpmc_put s buf len = Some r \<Longrightarrow> mpmc_in s + len \<le> mpmc_buf_size s + mpmc_real_out s"
  apply (rule mpmc_put.raw_induct[rotated 1,
        where P = "\<lambda>s buf len r. mpmc_in s + len \<le> mpmc_buf_size s + mpmc_real_out s"])
   apply assumption
  apply (auto simp: compare_exchange_def Let_def split: if_splits option.splits)
  done

lemma mpmc_get_Some:
  "mpmc_get s len = Some r \<Longrightarrow> mpmc_out s + len \<le> mpmc_real_in s"
  apply (rule mpmc_get.raw_induct[rotated 1,
        where P = "\<lambda>s len r. mpmc_out s + len \<le> mpmc_real_in s"])
   apply assumption
  apply (auto simp: compare_exchange_def Let_def split: if_splits option.splits)
  done

lemma mpmc_put_waits:
  "\<not> mpmc_in s + len \<le> mpmc_buf_size s + mpmc_real_out s \<Longrightarrow> mpmc_put s buf len = None"
  using mpmc_put_Some[of s buf len] by (cases "mpmc_put s buf len") auto

lemma mpmc_get_waits:
  "\<not> mpmc_out s + len \<le> mpmc_real_in s \<Longrightarrow> mpmc_get s len = None"
  using mpmc_get_Some[of s len] by (cases "mpmc_get s len") auto

lemma not_power_of_two_3: "\<not> power_of_two 3"
proof
  assume "power_of_two 3"
  then obtain k where k: "k < 64" "(3::u64) = 2 ^ k" by (auto simp: power_of_two_def)
  show False
  proof (cases k)
    case 0
    then show ?thesis using k by simp
  next
    case (Suc j)
    then have e: "even ((2::u64) ^ k)" by simp
    have "even (3::u64)" by (subst k(2)) (rule e)
    then show ?thesis by simp
  qed
qed

lemma not_power_of_two_0: "\<not> power_of_two 0"
  by (auto simp: power_of_two_def)

section \<open>The copy is the one the specification describes\<close>

lemma ring_index_inj:
  assumes "i < (c::nat)" "j < c" "(p + i) mod c = (p + j) mod c"
  shows "i = j"
proof -
  have *: "a = b" if "a \<le> b" "b < c" "(p + a) mod c = (p + b) mod c" for a b
  proof -
    have "p + a \<le> p + b" using that by simp
    then have "c dvd (p + b) - (p + a)"
      using that(3) mod_eq_dvd_iff_nat[of "p + a" "p + b" c] by metis
    moreover have "(p + b) - (p + a) = b - a" by simp
    ultimately have "c dvd b - a" by simp
    moreover have "b - a < c" using that by simp
    ultimately have "b - a = 0" using nat_dvd_not_less[of "b - a" c] by auto
    then show ?thesis using that by simp
  qed
  show ?thesis
  proof (cases "i \<le> j")
    case True
    then show ?thesis using *[of i j] assms by simp
  next
    case False
    then show ?thesis using *[of j i] assms by simp
  qed
qed

lemma ring_index_surj:
  assumes "j < (c::nat)"
  shows "\<exists>i<c. (p + i) mod c = j"
proof -
  define q where "q = p mod c"
  have q: "q < c" using assms by (simp add: q_def)
  have "(p + (j + c - q) mod c) mod c = (p + (j + c - q)) mod c" by (simp add: mod_add_right_eq)
  also have "\<dots> = (q + (j + c - q)) mod c" by (simp add: q_def mod_add_left_eq)
  also have "q + (j + c - q) = j + c" using q by simp
  also have "(j + c) mod c = j" using assms by simp
  finally have "(p + (j + c - q) mod c) mod c = j" .
  moreover have "(j + c - q) mod c < c" using assms by simp
  ultimately show ?thesis by blast
qed

lemma length_ring_write [simp]: "length (ring_write mem pos src n) = length mem"
  by (induction n) (simp_all add: ring_write_def)

lemma ring_write_Suc:
  "ring_write mem pos src (Suc n) = (ring_write mem pos src n)[(pos + n) mod length mem := src ! n]"
  using length_ring_write[of mem pos src n] by (simp add: ring_write_def)

lemma ring_write_nth:
  assumes "n \<le> length mem" "i < length mem"
  shows "ring_write mem pos src n ! ((pos + i) mod length mem) =
           (if i < n then src ! i else mem ! ((pos + i) mod length mem))"
  using assms
proof (induction n)
  case 0
  then show ?case by (simp add: ring_write_def)
next
  case (Suc n)
  have "0 < length mem" using Suc.prems by (cases mem) simp_all
  then have lt: "(pos + i) mod length mem < length mem" by simp
  show ?case
  proof (cases "i = n")
    case True
    then show ?thesis using lt by (simp add: ring_write_Suc)
  next
    case False
    then have "(pos + n) mod length mem \<noteq> (pos + i) mod length mem"
      using ring_index_inj[of n "length mem" i pos] Suc.prems by auto
    then show ?thesis using Suc False by (simp add: ring_write_Suc)
  qed
qed


lemma ring_copy_in_eq:
  assumes len_mem: "length mem = unat bs" and p2: "power_of_two bs"
    and len: "len \<le> bs" and buf: "unat len \<le> length buf"
  shows "\<exists>m1.
      memcpy_to mem (unat (pos AND (bs - 1))) buf (unat (min len (bs - (pos AND (bs - 1))))) = Some m1 \<and>
      memcpy_to m1 0 (drop (unat (min len (bs - (pos AND (bs - 1))))) buf)
         (unat (len - min len (bs - (pos AND (bs - 1))))) = Some (ring_write mem (unat pos) buf (unat len))"
proof -
  from ring_copy_in[OF len_mem p2 len buf, of pos] obtain m1 m2 where
    1: "memcpy_to mem (unat (pos AND (bs - 1))) buf (unat (min len (bs - (pos AND (bs - 1))))) = Some m1"
    and 2: "memcpy_to m1 0 (drop (unat (min len (bs - (pos AND (bs - 1))))) buf)
         (unat (len - min len (bs - (pos AND (bs - 1))))) = Some m2"
    and l: "length m2 = length mem"
    and n: "\<forall>i<unat bs. m2 ! ((unat pos + i) mod unat bs) =
          (if i < unat len then buf ! i else mem ! ((unat pos + i) mod unat bs))"
    by blast
  have n_le: "unat len \<le> length mem" using len len_mem by (simp add: word_le_nat_alt)
  have "m2 = ring_write mem (unat pos) buf (unat len)"
  proof (rule nth_equalityI)
    show "length m2 = length (ring_write mem (unat pos) buf (unat len))" using l by simp
  next
    fix j assume "j < length m2"
    then have j: "j < length mem" using l by simp
    from ring_index_surj[OF this, of "unat pos"] obtain i where
      i: "i < length mem" "(unat pos + i) mod length mem = j" by blast
    have "m2 ! ((unat pos + i) mod length mem) =
            ring_write mem (unat pos) buf (unat len) ! ((unat pos + i) mod length mem)"
      using n i(1) ring_write_nth[OF n_le i(1), of "unat pos" buf] by (simp add: len_mem)
    then show "m2 ! j = ring_write mem (unat pos) buf (unat len) ! j" using i(2) by simp
  qed
  then show ?thesis using 1 2 by blast
qed

lemma ring_copy_out_eq:
  assumes len_mem: "length mem = unat bs" and p2: "power_of_two bs"
    and len: "len \<le> bs"
  shows "\<exists>b1 b2.
      memcpy_from mem (unat (pos AND (bs - 1))) (unat (min len (bs - (pos AND (bs - 1))))) = Some b1 \<and>
      memcpy_from mem 0 (unat (len - min len (bs - (pos AND (bs - 1))))) = Some b2 \<and>
      b1 @ b2 = ring_read mem (unat pos) (unat len)"
proof -
  from ring_copy_out[OF len_mem p2 len, of pos] obtain b1 b2 where
    1: "memcpy_from mem (unat (pos AND (bs - 1))) (unat (min len (bs - (pos AND (bs - 1))))) = Some b1"
    and 2: "memcpy_from mem 0 (unat (len - min len (bs - (pos AND (bs - 1))))) = Some b2"
    and l: "length (b1 @ b2) = unat len"
    and n: "\<forall>i<unat len. (b1 @ b2) ! i = mem ! ((unat pos + i) mod unat bs)"
    by blast
  have "b1 @ b2 = ring_read mem (unat pos) (unat len)"
    using l n by (intro nth_equalityI) (simp_all add: ring_read_def len_mem)
  then show ?thesis using 1 2 by blast
qed

lemma spsc_put_eq:
  assumes wf: "spsc_wf s" and len: "len \<le> spsc_buf_size s" and buf: "unat len \<le> length buf"
  shows "spsc_put s buf len =
           Some (s\<lparr>spsc_buffer := ring_write (spsc_buffer s) (unat (spsc_in s)) buf (unat len),
                   spsc_in := spsc_in s + len\<rparr>)"
proof -
  from wf have lm: "length (spsc_buffer s) = unat (spsc_buf_size s)"
    and p2: "power_of_two (spsc_buf_size s)" by (simp_all add: spsc_wf_def)
  from ring_copy_in_eq[OF lm p2 len buf, of "spsc_in s"]
  show ?thesis by (auto simp: spsc_put_def Let_def)
qed

lemma spsc_get_eq:
  assumes wf: "spsc_wf s" and len: "len \<le> spsc_buf_size s"
  shows "spsc_get s len =
           Some (ring_read (spsc_buffer s) (unat (spsc_out s)) (unat len),
                 s\<lparr>spsc_out := spsc_out s + len\<rparr>)"
proof -
  from wf have lm: "length (spsc_buffer s) = unat (spsc_buf_size s)"
    and p2: "power_of_two (spsc_buf_size s)" by (simp_all add: spsc_wf_def)
  from ring_copy_out_eq[OF lm p2 len, of "spsc_out s"]
  show ?thesis by (auto simp: spsc_get_def Let_def)
qed

lemma spsc_write_cases:
  "spsc_write s buf len =
     (if spsc_buf_size s < len then Some (Aborted (Write_len_gt_buf_size len (spsc_buf_size s)), s)
      else if \<not> spsc_can_put s len then None
      else case spsc_put s buf len of None \<Rightarrow> Some (Out_of_bounds, s)
           | Some s' \<Rightarrow> Some (Completed (), s'))"
  by (simp add: spsc_write_def wait_until_eq)

lemma spsc_read_cases:
  "spsc_read s len =
     (if \<not> spsc_can_get s len then None
      else case spsc_get s len of None \<Rightarrow> Some (Out_of_bounds, s)
           | Some (bytes, s') \<Rightarrow> Some (Completed bytes, s'))"
  by (simp add: spsc_read_def wait_until_eq)


section \<open>Runs of the SPSC buffer\<close>

lemma unat_add_le: "unat (a + b :: u64) \<le> unat a + unat b"
  by (simp add: unat_plus_if')

lemma le_plus_nat:
  assumes "unat a + unat b < 2 ^ 64" "a + b \<le> (c::u64) + d"
  shows "unat a + unat b \<le> unat c + unat d"
proof -
  have "unat (a + b) = unat a + unat b" using assms(1) by (simp add: unat_add_lem[THEN iffD1])
  moreover have "unat (a + b) \<le> unat (c + d)" using assms(2) by (simp add: word_le_nat_alt)
  ultimately show ?thesis using unat_add_le[of c d] by simp
qed

lemma plus_le_nat:
  assumes "unat a + unat b < 2 ^ 64" "a + b \<le> (c::u64)"
  shows "unat a + unat b \<le> unat c"
  using le_plus_nat[of a b c 0] assms by simp

lemma ring_read_add:
  "ring_read mem p (a + b) = ring_read mem p a @ ring_read mem (p + a) b"
proof -
  have "[0..<a + b] = [0..<a] @ [a..<a + b]"
    using upt_add_eq_append[of 0 a b] by simp
  also have "[a..<a + b] = map (\<lambda>i. i + a) [0..<b]"
    using map_add_upt[of a b] by (simp add: add.commute)
  finally have "[0..<a + b] = [0..<a] @ map (\<lambda>i. i + a) [0..<b]" .
  then show ?thesis by (simp add: ring_read_def comp_def ac_simps)
qed

lemma length_ring_read [simp]: "length (ring_read mem p n) = n"
  by (simp add: ring_read_def)

lemma ring_read_mod: "ring_read mem (p mod length mem) n = ring_read mem p n"
  by (simp add: ring_read_def mod_add_left_eq)

lemma ring_read_written:
  assumes "n \<le> length mem" "n \<le> length src"
  shows "ring_read (ring_write mem p src n) p n = take n src"
proof (rule nth_equalityI)
  show "length (ring_read (ring_write mem p src n) p n) = length (take n src)" using assms by simp
next
  fix i assume "i < length (ring_read (ring_write mem p src n) p n)"
  then have i: "i < n" by simp
  then have "i < length mem" using assms by simp
  from ring_write_nth[OF assms(1) this, of p src] i
  show "ring_read (ring_write mem p src n) p n ! i = take n src ! i"
    by (simp add: ring_read_def)
qed

lemma ring_read_untouched:
  assumes "k + n \<le> length mem"
  shows "ring_read (ring_write mem (q + k) src n) q k = ring_read mem q k"
proof (rule nth_equalityI)
  show "length (ring_read (ring_write mem (q + k) src n) q k) = length (ring_read mem q k)" by simp
next
  fix i assume "i < length (ring_read (ring_write mem (q + k) src n) q k)"
  then have i: "i < k" by simp
  define c where "c = length mem"
  define j where "j = i + c - k"
  have j: "j < c" "\<not> j < n" using i assms by (simp_all add: j_def c_def)
  have "q + k + j = q + i + c" using i assms by (simp add: j_def c_def)
  then have "(q + k + j) mod c = (q + i + c) mod c" by (rule arg_cong)
  also have "\<dots> = (q + i) mod c" by (rule mod_add_self2)
  finally have idx: "(q + k + j) mod c = (q + i) mod c" .
  have "n \<le> length mem" using assms by simp
  from ring_write_nth[OF this, of j "q + k" src] j idx
  have "ring_write mem (q + k) src n ! ((q + i) mod c) = mem ! ((q + i) mod c)"
    by (simp add: c_def)
  then show "ring_read (ring_write mem (q + k) src n) q k ! i = ring_read mem q k ! i"
    using i by (simp add: ring_read_def c_def)
qed


lemma unat_add_nowrap: "unat a + unat b < 2 ^ 64 \<Longrightarrow> unat (a + b :: u64) = unat a + unat b"
  using unat_add_lem[of a b] by simp

lemma spsc_put_cursors:
  "spsc_put s buf len = Some s' \<Longrightarrow>
     spsc_in s' = spsc_in s + len \<and> spsc_out s' = spsc_out s \<and>
     spsc_buf_size s' = spsc_buf_size s \<and> spsc_enable_cv s' = spsc_enable_cv s"
  by (auto simp: spsc_put_def Let_def split: option.splits)

lemma spsc_put_src:
  assumes "spsc_put s buf len = Some s'"
  shows "unat len \<le> length buf"
proof -
  define l where "l = min len (spsc_buf_size s - (spsc_in s AND (spsc_buf_size s - 1)))"
  have "l \<le> len" by (simp add: l_def)
  then have sub: "unat (len - l) = unat len - unat l" and le: "unat l \<le> unat len"
    by (simp_all add: unat_sub word_le_nat_alt)
  from assms have "unat l \<le> length buf" "unat (len - l) \<le> length (drop (unat l) buf)"
    by (auto simp: spsc_put_def Let_def memcpy_to_def l_def split: option.splits if_splits)
  then show ?thesis using sub le by simp
qed

lemma spsc_get_cursors:
  "spsc_get s len = Some (bytes, s') \<Longrightarrow> s' = s\<lparr>spsc_out := spsc_out s + len\<rparr>"
  by (auto simp: spsc_get_def Let_def split: option.splits)

lemma spsc_write_completed:
  assumes "spsc_write s buf len = Some (Completed u, s')"
  shows "len \<le> spsc_buf_size s" "spsc_can_put s len" "spsc_put s buf len = Some s'"
  using assms by (auto simp: spsc_write_cases split: if_splits option.splits)

lemma spsc_read_completed:
  assumes "spsc_read s len = Some (Completed bytes, s')"
  shows "spsc_can_get s len" "spsc_get s len = Some (bytes, s')"
  using assms by (auto simp: spsc_read_cases split: if_splits option.splits)

lemma spsc_write_inv:
  assumes w: "spsc_write s buf len = Some (Completed u, s')"
    and inv: "spsc_inv s" and nw: "unat (spsc_in s) + unat len < 2 ^ 64"
  shows "spsc_inv s'" "unat (spsc_in s') = unat (spsc_in s) + unat len"
    "spsc_out s' = spsc_out s" "spsc_buf_size s' = spsc_buf_size s"
    "unat (spsc_in s) + unat len \<le> unat (spsc_buf_size s) + unat (spsc_out s)"
proof -
  note c = spsc_put_cursors[OF spsc_write_completed(3)[OF w]]
  from spsc_write_completed(2)[OF w]
  have g: "spsc_in s + len \<le> spsc_buf_size s + spsc_out s" by (simp add: spsc_can_put_def)
  show g': "unat (spsc_in s) + unat len \<le> unat (spsc_buf_size s) + unat (spsc_out s)"
    by (rule le_plus_nat[OF nw g])
  show i: "unat (spsc_in s') = unat (spsc_in s) + unat len"
    using c unat_add_nowrap[OF nw] by simp
  show "spsc_out s' = spsc_out s" "spsc_buf_size s' = spsc_buf_size s" using c by simp_all
  then show "spsc_inv s'" using inv g' i by (simp add: spsc_inv_def)
qed

lemma spsc_read_inv:
  assumes r: "spsc_read s len = Some (Completed bytes, s')"
    and inv: "spsc_inv s" and nw: "unat len + unat (spsc_out s) < 2 ^ 64"
  shows "spsc_inv s'" "unat (spsc_out s') = unat (spsc_out s) + unat len"
    "s' = s\<lparr>spsc_out := spsc_out s + len\<rparr>"
    "unat len + unat (spsc_out s) \<le> unat (spsc_in s)"
proof -
  show c: "s' = s\<lparr>spsc_out := spsc_out s + len\<rparr>"
    by (rule spsc_get_cursors[OF spsc_read_completed(2)[OF r]])
  from spsc_read_completed(1)[OF r]
  have g: "len + spsc_out s \<le> spsc_in s" by (simp add: spsc_can_get_def)
  show g': "unat len + unat (spsc_out s) \<le> unat (spsc_in s)"
    by (rule plus_le_nat[OF nw g])
  have "unat (len + spsc_out s) = unat len + unat (spsc_out s)"
    by (rule unat_add_nowrap[OF nw])
  then have "unat (spsc_out s + len) = unat (spsc_out s) + unat len"
    by (simp add: add.commute)
  then show o: "unat (spsc_out s') = unat (spsc_out s) + unat len" using c by simp
  show "spsc_inv s'" using inv g' o c by (simp add: spsc_inv_def)
qed

lemma spsc_run_Write:
  "spsc_run s (Write buf len # cs) = Some (outs, s') \<Longrightarrow>
     \<exists>u s1. spsc_write s buf len = Some (Completed u, s1) \<and> spsc_run s1 cs = Some (outs, s')"
  by (simp split: option.splits prod.splits outcome.splits)

lemma spsc_run_Read:
  "spsc_run s (Read len # cs) = Some (outs, s') \<Longrightarrow>
     \<exists>bytes s1 outs1. spsc_read s len = Some (Completed bytes, s1) \<and>
        spsc_run s1 cs = Some (outs1, s') \<and> outs = bytes # outs1"
  by (simp split: option.splits prod.splits outcome.splits)

lemma spsc_run_inv:
  assumes "spsc_run s cs = Some (outs, s')" and "spsc_inv s"
    and "\<forall>c\<in>set cs. call_len c \<le> spsc_buf_size s"
    and "unat (spsc_in s) + bytes_written cs + unat (spsc_buf_size s) < 2 ^ 64"
  shows "spsc_inv s' \<and> spsc_buf_size s' = spsc_buf_size s \<and>
         unat (spsc_in s') = unat (spsc_in s) + bytes_written cs \<and>
         unat (spsc_out s') = unat (spsc_out s) + sum_list (read_lens cs)"
  using assms
proof (induction cs arbitrary: s outs)
  case Nil
  then show ?case by simp
next
  case (Cons c cs)
  show ?case
  proof (cases c)
    case (Write buf len)
    from spsc_run_Write[OF Cons.prems(1)[unfolded Write]] obtain u s1 where
      w: "spsc_write s buf len = Some (Completed u, s1)" and run: "spsc_run s1 cs = Some (outs, s')"
      by blast
    have nw: "unat (spsc_in s) + unat len < 2 ^ 64" using Cons.prems(4) Write by simp
    note st = spsc_write_inv[OF w Cons.prems(2) nw]
    have "spsc_inv s' \<and> spsc_buf_size s' = spsc_buf_size s1 \<and>
         unat (spsc_in s') = unat (spsc_in s1) + bytes_written cs \<and>
         unat (spsc_out s') = unat (spsc_out s1) + sum_list (read_lens cs)"
      using Cons.prems(3,4) st Write by (intro Cons.IH[OF run st(1)]) simp_all
    then show ?thesis using st Write by simp
  next
    case (Read len)
    from spsc_run_Read[OF Cons.prems(1)[unfolded Read]] obtain bytes s1 outs1 where
      r: "spsc_read s len = Some (Completed bytes, s1)" and run: "spsc_run s1 cs = Some (outs1, s')"
      by blast
    have len: "len \<le> spsc_buf_size s" using Cons.prems(3) Read by simp
    have nw: "unat len + unat (spsc_out s) < 2 ^ 64"
      using Cons.prems(2,4) len by (simp add: spsc_inv_def word_le_nat_alt)
    note st = spsc_read_inv[OF r Cons.prems(2) nw]
    have "spsc_inv s' \<and> spsc_buf_size s' = spsc_buf_size s1 \<and>
         unat (spsc_in s') = unat (spsc_in s1) + bytes_written cs \<and>
         unat (spsc_out s') = unat (spsc_out s1) + sum_list (read_lens cs)"
      using Cons.prems(3,4) st Read by (intro Cons.IH[OF run st(1)]) simp_all
    then show ?thesis using st Read by simp
  qed
qed


lemma spsc_write_contents:
  assumes w: "spsc_write s buf len = Some (Completed u, s')"
    and wf: "spsc_wf s" and inv: "spsc_inv s" and nw: "unat (spsc_in s) + unat len < 2 ^ 64"
  shows "spsc_wf s'" "spsc_contents s' = spsc_contents s @ take (unat len) buf"
proof -
  note wc = spsc_write_completed[OF w]
  note st = spsc_write_inv[OF w inv nw]
  have buf: "unat len \<le> length buf" by (rule spsc_put_src[OF wc(3)])
  have s': "s' = s\<lparr>spsc_buffer := ring_write (spsc_buffer s) (unat (spsc_in s)) buf (unat len),
                   spsc_in := spsc_in s + len\<rparr>"
    using spsc_put_eq[OF wf wc(1) buf] wc(3) by simp
  show "spsc_wf s'" using wf by (simp add: s' spsc_wf_def)
  define mem where "mem = spsc_buffer s"
  define p where "p = unat (spsc_out s)"
  define k where "k = unat (spsc_in s) - unat (spsc_out s)"
  define n where "n = unat len"
  have i: "unat (spsc_in s) = p + k" using inv by (simp add: spsc_inv_def p_def k_def)
  have cap: "length mem = unat (spsc_buf_size s)" using wf by (simp add: spsc_wf_def mem_def)
  have room: "k + n \<le> length mem" using st(5) i cap by (simp add: n_def p_def)
  have "spsc_contents s' = ring_read (ring_write mem (p + k) buf n) p (k + n)"
    using st(2) i by (simp add: spsc_contents_def s' mem_def p_def n_def)
  also have "\<dots> = ring_read (ring_write mem (p + k) buf n) p k @
                   ring_read (ring_write mem (p + k) buf n) (p + k) n"
    by (rule ring_read_add)
  also have "ring_read (ring_write mem (p + k) buf n) p k = ring_read mem p k"
    by (rule ring_read_untouched[OF room])
  also have "ring_read (ring_write mem (p + k) buf n) (p + k) n = take n buf"
    using room buf by (intro ring_read_written) (simp_all add: n_def)
  finally show "spsc_contents s' = spsc_contents s @ take (unat len) buf"
    by (simp add: spsc_contents_def mem_def p_def k_def n_def)
qed

lemma spsc_read_contents:
  assumes r: "spsc_read s len = Some (Completed bytes, s')"
    and wf: "spsc_wf s" and inv: "spsc_inv s" and nw: "unat len + unat (spsc_out s) < 2 ^ 64"
  shows "spsc_wf s'" "spsc_contents s = bytes @ spsc_contents s'" "length bytes = unat len"
proof -
  note rc = spsc_read_completed[OF r]
  note st = spsc_read_inv[OF r inv nw]
  have len: "len \<le> spsc_buf_size s"
    using st(4) inv by (simp add: spsc_inv_def word_le_nat_alt)
  have b: "bytes = ring_read (spsc_buffer s) (unat (spsc_out s)) (unat len)"
    using spsc_get_eq[OF wf len] rc(2) by simp
  show "spsc_wf s'" using wf by (simp add: st(3) spsc_wf_def)
  show "length bytes = unat len" by (simp add: b)
  define mem where "mem = spsc_buffer s"
  define p where "p = unat (spsc_out s)"
  define n where "n = unat len"
  define k where "k = unat (spsc_in s) - (p + n)"
  have i: "unat (spsc_in s) - p = n + k" using st(4) by (simp add: k_def p_def n_def)
  have "spsc_contents s = ring_read mem p (n + k)"
    using i by (simp add: spsc_contents_def mem_def p_def)
  also have "\<dots> = ring_read mem p n @ ring_read mem (p + n) k" by (rule ring_read_add)
  also have "ring_read mem p n = bytes" by (simp add: b mem_def p_def n_def)
  also have "ring_read mem (p + n) k = spsc_contents s'"
    using st(2) by (simp add: spsc_contents_def st(3) mem_def p_def n_def k_def)
  finally show "spsc_contents s = bytes @ spsc_contents s'" .
qed

lemma spsc_run_fifo:
  assumes "spsc_run s cs = Some (outs, s')" and "spsc_wf s" and "spsc_inv s"
    and "\<forall>c\<in>set cs. call_len c \<le> spsc_buf_size s"
    and "unat (spsc_in s) + bytes_written cs + unat (spsc_buf_size s) < 2 ^ 64"
  shows "spsc_contents s @ concat (chunks_written cs) = concat outs @ spsc_contents s' \<and>
         map length outs = read_lens cs"
  using assms
proof (induction cs arbitrary: s outs)
  case Nil
  then show ?case by simp
next
  case (Cons c cs)
  show ?case
  proof (cases c)
    case (Write buf len)
    from spsc_run_Write[OF Cons.prems(1)[unfolded Write]] obtain u s1 where
      w: "spsc_write s buf len = Some (Completed u, s1)" and run: "spsc_run s1 cs = Some (outs, s')"
      by blast
    have nw: "unat (spsc_in s) + unat len < 2 ^ 64" using Cons.prems(5) Write by simp
    note st = spsc_write_inv[OF w Cons.prems(3) nw]
    note ct = spsc_write_contents[OF w Cons.prems(2,3) nw]
    have "spsc_contents s1 @ concat (chunks_written cs) = concat outs @ spsc_contents s' \<and>
         map length outs = read_lens cs"
      using Cons.prems(4,5) st Write by (intro Cons.IH[OF run ct(1) st(1)]) simp_all
    then show ?thesis using ct(2) Write by simp
  next
    case (Read len)
    from spsc_run_Read[OF Cons.prems(1)[unfolded Read]] obtain bytes s1 outs1 where
      r: "spsc_read s len = Some (Completed bytes, s1)" and run: "spsc_run s1 cs = Some (outs1, s')"
      and outs: "outs = bytes # outs1"
      by blast
    have len: "len \<le> spsc_buf_size s" using Cons.prems(4) Read by simp
    have nw: "unat len + unat (spsc_out s) < 2 ^ 64"
      using Cons.prems(3,5) len by (simp add: spsc_inv_def word_le_nat_alt)
    note st = spsc_read_inv[OF r Cons.prems(3) nw]
    note ct = spsc_read_contents[OF r Cons.prems(2,3) nw]
    have "spsc_contents s1 @ concat (chunks_written cs) = concat outs1 @ spsc_contents s' \<and>
         map length outs1 = read_lens cs"
      using Cons.prems(4,5) st Read by (intro Cons.IH[OF run ct(1) st(1)]) simp_all
    then show ?thesis using ct(2,3) Read outs by simp
  qed
qed


subsection \<open>A run up to the point where the cursors wrap around\<close>

lemma spsc_run_append:
  "spsc_run s (cs @ ds) =
     (case spsc_run s cs of
        None \<Rightarrow> None
      | Some (o1, s1) \<Rightarrow>
          (case spsc_run s1 ds of None \<Rightarrow> None | Some (o2, s2) \<Rightarrow> Some (o1 @ o2, s2)))"
proof (induction cs arbitrary: s)
  case Nil
  then show ?case by (simp split: option.splits)
next
  case (Cons c cs)
  show ?case
  proof (cases c)
    case (Write buf len)
    then show ?thesis using Cons.IH
      by (simp split: option.splits prod.splits outcome.splits)
  next
    case (Read len)
    then show ?thesis using Cons.IH
      by (simp split: option.splits prod.splits outcome.splits)
  qed
qed

lemma aligned_write_16:
  assumes "x AND 15 = 0" "length m = 16" "length c = 16" "x + 16 \<le> 16 + y"
  shows "spsc_write \<lparr>spsc_buffer = m, spsc_buf_size = 16, spsc_enable_cv = cv, spsc_in = x, spsc_out = y\<rparr> c 16 =
           Some (Completed (),
             \<lparr>spsc_buffer = c, spsc_buf_size = 16, spsc_enable_cv = cv, spsc_in = x + 16, spsc_out = y\<rparr>)"
  using assms by (simp add: spsc_write_cases spsc_can_put_def spsc_put_def memcpy_to_def)

lemma aligned_read_16:
  assumes "y AND 15 = 0" "length m = 16" "16 + y \<le> x"
  shows "spsc_read \<lparr>spsc_buffer = m, spsc_buf_size = 16, spsc_enable_cv = cv, spsc_in = x, spsc_out = y\<rparr> 16 =
           Some (Completed m,
             \<lparr>spsc_buffer = m, spsc_buf_size = 16, spsc_enable_cv = cv, spsc_in = x, spsc_out = y + 16\<rparr>)"
  using assms by (simp add: spsc_read_cases spsc_can_get_def spsc_get_def memcpy_from_def)

lemma spsc_pump:
  assumes "length c = 16"
  shows "spsc_run \<lparr>spsc_buffer = c, spsc_buf_size = 16, spsc_enable_cv = cv,
                   spsc_in = 16 * of_nat j, spsc_out = 16 * of_nat j\<rparr>
           (concat (replicate k [Write c 16, Read 16])) =
         Some (replicate k c,
           \<lparr>spsc_buffer = c, spsc_buf_size = 16, spsc_enable_cv = cv,
            spsc_in = 16 * of_nat (j + k), spsc_out = 16 * of_nat (j + k)\<rparr>)"
proof (induction k arbitrary: j)
  case 0
  then show ?case by simp
next
  case (Suc k)
  define x :: u64 where "x = 16 * of_nat j"
  define x' :: u64 where "x' = 16 * of_nat (Suc j)"
  have a: "x AND 15 = 0" unfolding x_def by (rule pump_and)
  have e: "x + 16 = x'" by (simp add: x_def x'_def)
  have w: "spsc_write \<lparr>spsc_buffer = c, spsc_buf_size = 16, spsc_enable_cv = cv,
                   spsc_in = x, spsc_out = x\<rparr> c 16 =
      Some (Completed (), \<lparr>spsc_buffer = c, spsc_buf_size = 16, spsc_enable_cv = cv,
                   spsc_in = x', spsc_out = x\<rparr>)"
    using aligned_write_16[of x c c x cv] assms a e by (simp add: add.commute)
  have r: "spsc_read \<lparr>spsc_buffer = c, spsc_buf_size = 16, spsc_enable_cv = cv,
                   spsc_in = x', spsc_out = x\<rparr> 16 =
      Some (Completed c, \<lparr>spsc_buffer = c, spsc_buf_size = 16, spsc_enable_cv = cv,
                   spsc_in = x', spsc_out = x'\<rparr>)"
    using aligned_read_16[of x c x' cv] assms a e by (simp add: add.commute)
  have "spsc_run \<lparr>spsc_buffer = c, spsc_buf_size = 16, spsc_enable_cv = cv,
                   spsc_in = x', spsc_out = x'\<rparr> (concat (replicate k [Write c 16, Read 16])) =
         Some (replicate k c,
           \<lparr>spsc_buffer = c, spsc_buf_size = 16, spsc_enable_cv = cv,
            spsc_in = 16 * of_nat (Suc j + k), spsc_out = 16 * of_nat (Suc j + k)\<rparr>)"
    unfolding x'_def by (rule Suc)
  then have "spsc_run \<lparr>spsc_buffer = c, spsc_buf_size = 16, spsc_enable_cv = cv,
                   spsc_in = x, spsc_out = x\<rparr>
           (concat (replicate (Suc k) [Write c 16, Read 16])) =
         Some (replicate (Suc k) c,
           \<lparr>spsc_buffer = c, spsc_buf_size = 16, spsc_enable_cv = cv,
            spsc_in = 16 * of_nat (Suc j + k), spsc_out = 16 * of_nat (Suc j + k)\<rparr>)"
    by (simp add: w r)
  then show ?case unfolding x_def by simp
qed

lemma spsc_pump_to_wrap:
  "spsc_run \<lparr>spsc_buffer = replicate 16 0, spsc_buf_size = 16, spsc_enable_cv = cv,
                   spsc_in = 0, spsc_out = 0\<rparr>
           (concat (replicate 1152921504606846975 [Write (replicate 16 0) 16, Read 16])) =
         Some (replicate 1152921504606846975 (replicate 16 0),
           \<lparr>spsc_buffer = replicate 16 0, spsc_buf_size = 16, spsc_enable_cv = cv,
            spsc_in = 18446744073709551600, spsc_out = 18446744073709551600\<rparr>)"
  using spsc_pump[of "replicate 16 0" cv 0 1152921504606846975] by simp


section \<open>Calls on the MPMC buffer that run alone\<close>

lemma mpmc_copy_in_eq:
  assumes wf: "mpmc_wf s" and len: "len \<le> mpmc_buf_size s" and buf: "unat len \<le> length buf"
  shows "mpmc_copy_in s e buf len =
           Some (s\<lparr>mpmc_buffer := ring_write (mpmc_buffer s) (unat e) buf (unat len)\<rparr>)"
proof -
  from wf have lm: "length (mpmc_buffer s) = unat (mpmc_buf_size s)"
    and p2: "power_of_two (mpmc_buf_size s)" by (simp_all add: mpmc_wf_def)
  from ring_copy_in_eq[OF lm p2 len buf, of e]
  show ?thesis by (auto simp: mpmc_copy_in_def Let_def)
qed

lemma mpmc_copy_out_eq:
  assumes wf: "mpmc_wf s" and len: "len \<le> mpmc_buf_size s"
  shows "mpmc_copy_out s e len = Some (ring_read (mpmc_buffer s) (unat e) (unat len))"
proof -
  from wf have lm: "length (mpmc_buffer s) = unat (mpmc_buf_size s)"
    and p2: "power_of_two (mpmc_buf_size s)" by (simp_all add: mpmc_wf_def)
  from ring_copy_out_eq[OF lm p2 len, of e]
  show ?thesis by (auto simp: mpmc_copy_out_def Let_def)
qed

lemma mpmc_put_cases:
  "mpmc_put s buf len =
     (if \<not> mpmc_in s + len \<le> mpmc_buf_size s + mpmc_real_out s then None
      else case mpmc_copy_in (s\<lparr>mpmc_in := mpmc_in s + len\<rparr>) (mpmc_in s) buf len of
             None \<Rightarrow> Some (Out_of_bounds, s\<lparr>mpmc_in := mpmc_in s + len\<rparr>)
           | Some s2 \<Rightarrow>
               if mpmc_real_in s2 = mpmc_in s
               then Some (Completed (), s2\<lparr>mpmc_real_in := mpmc_in s + len\<rparr>)
               else None)"
proof (cases "mpmc_in s + len \<le> mpmc_buf_size s + mpmc_real_out s")
  case False
  then show ?thesis by (simp add: mpmc_put_waits)
next
  case True
  then have "\<not> mpmc_buf_size s + mpmc_real_out s < mpmc_in s + len" by simp
  with True show ?thesis
    by (subst mpmc_put.simps)
      (simp add: wait_until_eq compare_exchange_def commit_loop_eq Let_def
        split: option.splits)
qed

lemma mpmc_get_cases:
  "mpmc_get s len =
     (if \<not> mpmc_out s + len \<le> mpmc_real_in s then None
      else case mpmc_copy_out (s\<lparr>mpmc_out := mpmc_out s + len\<rparr>) (mpmc_out s) len of
             None \<Rightarrow> Some (Out_of_bounds, s\<lparr>mpmc_out := mpmc_out s + len\<rparr>)
           | Some bytes \<Rightarrow>
               if mpmc_real_out s = mpmc_out s
               then Some (Completed bytes,
                      s\<lparr>mpmc_out := mpmc_out s + len, mpmc_real_out := mpmc_out s + len\<rparr>)
               else None)"
proof (cases "mpmc_out s + len \<le> mpmc_real_in s")
  case False
  then show ?thesis by (simp add: mpmc_get_waits)
next
  case True
  then have "\<not> mpmc_real_in s < mpmc_out s + len" by simp
  with True show ?thesis
    by (subst mpmc_get.simps)
      (simp add: wait_until_eq compare_exchange_def commit_loop_eq Let_def
        split: option.splits)
qed

lemma mpmc_copy_in_cursors:
  "mpmc_copy_in t e buf len = Some s2 \<Longrightarrow> \<exists>m. s2 = t\<lparr>mpmc_buffer := m\<rparr>"
  by (auto simp: mpmc_copy_in_def Let_def split: option.splits)

lemma mpmc_write_completed:
  assumes "mpmc_write s buf len = Some (Completed u, s')"
  shows "mpmc_in s + len \<le> mpmc_buf_size s + mpmc_real_out s" "mpmc_real_in s = mpmc_in s"
    "\<exists>m. s' = s\<lparr>mpmc_in := mpmc_in s + len, mpmc_buffer := m, mpmc_real_in := mpmc_in s + len\<rparr>"
proof -
  from assms have p: "mpmc_put s buf len = Some (Completed u, s')" by (simp add: mpmc_write_def)
  then show g: "mpmc_in s + len \<le> mpmc_buf_size s + mpmc_real_out s" by (rule mpmc_put_Some)
  from p g obtain s2 where c: "mpmc_copy_in (s\<lparr>mpmc_in := mpmc_in s + len\<rparr>) (mpmc_in s) buf len = Some s2"
    and r: "mpmc_real_in s2 = mpmc_in s" and s': "s' = s2\<lparr>mpmc_real_in := mpmc_in s + len\<rparr>"
    by (auto simp: mpmc_put_cases split: option.splits if_splits)
  from mpmc_copy_in_cursors[OF c] obtain m where m: "s2 = s\<lparr>mpmc_in := mpmc_in s + len, mpmc_buffer := m\<rparr>"
    by auto
  show "mpmc_real_in s = mpmc_in s" using r m by simp
  show "\<exists>m. s' = s\<lparr>mpmc_in := mpmc_in s + len, mpmc_buffer := m, mpmc_real_in := mpmc_in s + len\<rparr>"
    using s' m by auto
qed

lemma mpmc_read_completed:
  assumes "mpmc_read s len = Some (Completed bytes, s')"
  shows "mpmc_out s + len \<le> mpmc_real_in s" "mpmc_real_out s = mpmc_out s"
    "s' = s\<lparr>mpmc_out := mpmc_out s + len, mpmc_real_out := mpmc_out s + len\<rparr>"
proof -
  from assms have p: "mpmc_get s len = Some (Completed bytes, s')" by (simp add: mpmc_read_def)
  then show g: "mpmc_out s + len \<le> mpmc_real_in s" by (rule mpmc_get_Some)
  from p g show "mpmc_real_out s = mpmc_out s"
    "s' = s\<lparr>mpmc_out := mpmc_out s + len, mpmc_real_out := mpmc_out s + len\<rparr>"
    by (auto simp: mpmc_get_cases split: option.splits if_splits)
qed

lemma mpmc_write_inv:
  assumes w: "mpmc_write s buf len = Some (Completed u, s')"
    and inv: "mpmc_chain s" and q: "mpmc_quiescent s"
    and nw: "unat (mpmc_in s) + unat len < 2 ^ 64"
  shows "mpmc_chain s'" "mpmc_quiescent s'"
    "unat (mpmc_real_in s') = unat (mpmc_real_in s) + unat len"
    "unat (mpmc_in s') = unat (mpmc_in s) + unat len"
    "mpmc_out s' = mpmc_out s" "mpmc_real_out s' = mpmc_real_out s"
    "mpmc_buf_size s' = mpmc_buf_size s"
proof -
  note c = mpmc_write_completed[OF w]
  from c(3) obtain m where s': "s' = s\<lparr>mpmc_in := mpmc_in s + len, mpmc_buffer := m,
      mpmc_real_in := mpmc_in s + len\<rparr>" by blast
  have g: "unat (mpmc_in s) + unat len \<le> unat (mpmc_buf_size s) + unat (mpmc_real_out s)"
    by (rule le_plus_nat[OF nw c(1)])
  have i: "unat (mpmc_in s + len) = unat (mpmc_in s) + unat len" by (rule unat_add_nowrap[OF nw])
  show "unat (mpmc_real_in s') = unat (mpmc_real_in s) + unat len"
    "unat (mpmc_in s') = unat (mpmc_in s) + unat len"
    using i c(2) by (simp_all add: s')
  show "mpmc_out s' = mpmc_out s" "mpmc_real_out s' = mpmc_real_out s"
    "mpmc_buf_size s' = mpmc_buf_size s" by (simp_all add: s')
  show "mpmc_chain s'" using inv g i c(2) by (simp add: mpmc_chain_def s')
  show "mpmc_quiescent s'" using q by (simp add: mpmc_quiescent_def s')
qed


lemma mpmc_read_inv:
  assumes r: "mpmc_read s len = Some (Completed bytes, s')"
    and inv: "mpmc_chain s" and q: "mpmc_quiescent s"
    and nw: "unat (mpmc_out s) + unat len < 2 ^ 64"
  shows "mpmc_chain s'" "mpmc_quiescent s'"
    "unat (mpmc_real_out s') = unat (mpmc_real_out s) + unat len"
    "unat (mpmc_out s') = unat (mpmc_out s) + unat len"
    "mpmc_in s' = mpmc_in s" "mpmc_real_in s' = mpmc_real_in s"
    "mpmc_buf_size s' = mpmc_buf_size s"
proof -
  note c = mpmc_read_completed[OF r]
  note s' = c(3)
  have g: "unat (mpmc_out s) + unat len \<le> unat (mpmc_real_in s)"
    by (rule plus_le_nat[OF nw c(1)])
  have i: "unat (mpmc_out s + len) = unat (mpmc_out s) + unat len" by (rule unat_add_nowrap[OF nw])
  show "unat (mpmc_real_out s') = unat (mpmc_real_out s) + unat len"
    "unat (mpmc_out s') = unat (mpmc_out s) + unat len"
    using i c(2) by (simp_all add: s')
  show "mpmc_in s' = mpmc_in s" "mpmc_real_in s' = mpmc_real_in s"
    "mpmc_buf_size s' = mpmc_buf_size s" by (simp_all add: s')
  show "mpmc_chain s'" using inv g i c(2) by (simp add: mpmc_chain_def s')
  show "mpmc_quiescent s'" using q by (simp add: mpmc_quiescent_def s')
qed

lemma mpmc_run_Write:
  "mpmc_run s (Write buf len # cs) = Some (outs, s') \<Longrightarrow>
     \<exists>u s1. mpmc_write s buf len = Some (Completed u, s1) \<and> mpmc_run s1 cs = Some (outs, s')"
  by (simp split: option.splits prod.splits outcome.splits)

lemma mpmc_run_Read:
  "mpmc_run s (Read len # cs) = Some (outs, s') \<Longrightarrow>
     \<exists>bytes s1 outs1. mpmc_read s len = Some (Completed bytes, s1) \<and>
        mpmc_run s1 cs = Some (outs1, s') \<and> outs = bytes # outs1"
  by (simp split: option.splits prod.splits outcome.splits)

lemma mpmc_run_inv:
  assumes "mpmc_run s cs = Some (outs, s')" and "mpmc_chain s" and "mpmc_quiescent s"
    and "\<forall>c\<in>set cs. call_len c \<le> mpmc_buf_size s"
    and "unat (mpmc_in s) + bytes_written cs + unat (mpmc_buf_size s) < 2 ^ 64"
  shows "mpmc_chain s' \<and> mpmc_quiescent s' \<and> mpmc_buf_size s' = mpmc_buf_size s \<and>
         unat (mpmc_real_in s') = unat (mpmc_real_in s) + bytes_written cs \<and>
         unat (mpmc_real_out s') = unat (mpmc_real_out s) + sum_list (read_lens cs)"
  using assms
proof (induction cs arbitrary: s outs)
  case Nil
  then show ?case by simp
next
  case (Cons c cs)
  show ?case
  proof (cases c)
    case (Write buf len)
    from mpmc_run_Write[OF Cons.prems(1)[unfolded Write]] obtain u s1 where
      w: "mpmc_write s buf len = Some (Completed u, s1)" and run: "mpmc_run s1 cs = Some (outs, s')"
      by blast
    have nw: "unat (mpmc_in s) + unat len < 2 ^ 64" using Cons.prems(5) Write by simp
    note st = mpmc_write_inv[OF w Cons.prems(2,3) nw]
    have "mpmc_chain s' \<and> mpmc_quiescent s' \<and> mpmc_buf_size s' = mpmc_buf_size s1 \<and>
         unat (mpmc_real_in s') = unat (mpmc_real_in s1) + bytes_written cs \<and>
         unat (mpmc_real_out s') = unat (mpmc_real_out s1) + sum_list (read_lens cs)"
      using Cons.prems(4,5) st Write by (intro Cons.IH[OF run st(1,2)]) simp_all
    then show ?thesis using st Write by simp
  next
    case (Read len)
    from mpmc_run_Read[OF Cons.prems(1)[unfolded Read]] obtain bytes s1 outs1 where
      r: "mpmc_read s len = Some (Completed bytes, s1)" and run: "mpmc_run s1 cs = Some (outs1, s')"
      by blast
    have len: "len \<le> mpmc_buf_size s" using Cons.prems(4) Read by simp
    have nw: "unat (mpmc_out s) + unat len < 2 ^ 64"
      using Cons.prems(2,5) len by (simp add: mpmc_chain_def word_le_nat_alt)
    note st = mpmc_read_inv[OF r Cons.prems(2,3) nw]
    have "mpmc_chain s' \<and> mpmc_quiescent s' \<and> mpmc_buf_size s' = mpmc_buf_size s1 \<and>
         unat (mpmc_real_in s') = unat (mpmc_real_in s1) + bytes_written cs \<and>
         unat (mpmc_real_out s') = unat (mpmc_real_out s1) + sum_list (read_lens cs)"
      using Cons.prems(4,5) st Read by (intro Cons.IH[OF run st(1,2)]) simp_all
    then show ?thesis using st Read by simp
  qed
qed

subsection \<open>A run up to the point where the cursors wrap around\<close>

lemma mpmc_run_append:
  "mpmc_run s (cs @ ds) =
     (case mpmc_run s cs of
        None \<Rightarrow> None
      | Some (o1, s1) \<Rightarrow>
          (case mpmc_run s1 ds of None \<Rightarrow> None | Some (o2, s2) \<Rightarrow> Some (o1 @ o2, s2)))"
proof (induction cs arbitrary: s)
  case Nil
  then show ?case by (simp split: option.splits)
next
  case (Cons c cs)
  show ?case
  proof (cases c)
    case (Write buf len)
    then show ?thesis using Cons.IH
      by (simp split: option.splits prod.splits outcome.splits)
  next
    case (Read len)
    then show ?thesis using Cons.IH
      by (simp split: option.splits prod.splits outcome.splits)
  qed
qed

lemma mpmc_aligned_write_16:
  assumes "x AND 15 = 0" "length m = 16" "length c = 16" "x + 16 \<le> 16 + y"
  shows "mpmc_write \<lparr>mpmc_buffer = m, mpmc_buf_size = 16, mpmc_enable_cv = cv,
            mpmc_in = x, mpmc_real_in = x, mpmc_out = y, mpmc_real_out = y\<rparr> c 16 =
           Some (Completed (),
             \<lparr>mpmc_buffer = c, mpmc_buf_size = 16, mpmc_enable_cv = cv,
              mpmc_in = x + 16, mpmc_real_in = x + 16, mpmc_out = y, mpmc_real_out = y\<rparr>)"
  using assms by (simp add: mpmc_write_def mpmc_put_cases mpmc_copy_in_def memcpy_to_def)

lemma mpmc_aligned_read_16:
  assumes "y AND 15 = 0" "length m = 16" "y + 16 \<le> x"
  shows "mpmc_read \<lparr>mpmc_buffer = m, mpmc_buf_size = 16, mpmc_enable_cv = cv,
            mpmc_in = x, mpmc_real_in = x, mpmc_out = y, mpmc_real_out = y\<rparr> 16 =
           Some (Completed m,
             \<lparr>mpmc_buffer = m, mpmc_buf_size = 16, mpmc_enable_cv = cv,
              mpmc_in = x, mpmc_real_in = x, mpmc_out = y + 16, mpmc_real_out = y + 16\<rparr>)"
  using assms by (simp add: mpmc_read_def mpmc_get_cases mpmc_copy_out_def memcpy_from_def)

lemma mpmc_pump:
  assumes "length c = 16"
  shows "mpmc_run \<lparr>mpmc_buffer = c, mpmc_buf_size = 16, mpmc_enable_cv = cv,
            mpmc_in = 16 * of_nat j, mpmc_real_in = 16 * of_nat j,
            mpmc_out = 16 * of_nat j, mpmc_real_out = 16 * of_nat j\<rparr>
           (concat (replicate k [Write c 16, Read 16])) =
         Some (replicate k c,
           \<lparr>mpmc_buffer = c, mpmc_buf_size = 16, mpmc_enable_cv = cv,
            mpmc_in = 16 * of_nat (j + k), mpmc_real_in = 16 * of_nat (j + k),
            mpmc_out = 16 * of_nat (j + k), mpmc_real_out = 16 * of_nat (j + k)\<rparr>)"
proof (induction k arbitrary: j)
  case 0
  then show ?case by simp
next
  case (Suc k)
  define x :: u64 where "x = 16 * of_nat j"
  define x' :: u64 where "x' = 16 * of_nat (Suc j)"
  have a: "x AND 15 = 0" unfolding x_def by (rule pump_and)
  have e: "x + 16 = x'" by (simp add: x_def x'_def)
  have w: "mpmc_write \<lparr>mpmc_buffer = c, mpmc_buf_size = 16, mpmc_enable_cv = cv,
            mpmc_in = x, mpmc_real_in = x, mpmc_out = x, mpmc_real_out = x\<rparr> c 16 =
      Some (Completed (), \<lparr>mpmc_buffer = c, mpmc_buf_size = 16, mpmc_enable_cv = cv,
            mpmc_in = x', mpmc_real_in = x', mpmc_out = x, mpmc_real_out = x\<rparr>)"
    using mpmc_aligned_write_16[of x c c x cv] assms a e by (simp add: add.commute)
  have r: "mpmc_read \<lparr>mpmc_buffer = c, mpmc_buf_size = 16, mpmc_enable_cv = cv,
            mpmc_in = x', mpmc_real_in = x', mpmc_out = x, mpmc_real_out = x\<rparr> 16 =
      Some (Completed c, \<lparr>mpmc_buffer = c, mpmc_buf_size = 16, mpmc_enable_cv = cv,
            mpmc_in = x', mpmc_real_in = x', mpmc_out = x', mpmc_real_out = x'\<rparr>)"
    using mpmc_aligned_read_16[of x c x' cv] assms a e by simp
  have "mpmc_run \<lparr>mpmc_buffer = c, mpmc_buf_size = 16, mpmc_enable_cv = cv,
            mpmc_in = x', mpmc_real_in = x', mpmc_out = x', mpmc_real_out = x'\<rparr>
           (concat (replicate k [Write c 16, Read 16])) =
         Some (replicate k c,
           \<lparr>mpmc_buffer = c, mpmc_buf_size = 16, mpmc_enable_cv = cv,
            mpmc_in = 16 * of_nat (Suc j + k), mpmc_real_in = 16 * of_nat (Suc j + k),
            mpmc_out = 16 * of_nat (Suc j + k), mpmc_real_out = 16 * of_nat (Suc j + k)\<rparr>)"
    unfolding x'_def by (rule Suc)
  then have "mpmc_run \<lparr>mpmc_buffer = c, mpmc_buf_size = 16, mpmc_enable_cv = cv,
            mpmc_in = x, mpmc_real_in = x, mpmc_out = x, mpmc_real_out = x\<rparr>
           (concat (replicate (Suc k) [Write c 16, Read 16])) =
         Some (replicate (Suc k) c,
           \<lparr>mpmc_buffer = c, mpmc_buf_size = 16, mpmc_enable_cv = cv,
            mpmc_in = 16 * of_nat (Suc j + k), mpmc_real_in = 16 * of_nat (Suc j + k),
            mpmc_out = 16 * of_nat (Suc j + k), mpmc_real_out = 16 * of_nat (Suc j + k)\<rparr>)"
    by (simp add: w r)
  then show ?case unfolding x_def by simp
qed

lemma mpmc_pump_to_wrap:
  "mpmc_run \<lparr>mpmc_buffer = replicate 16 0, mpmc_buf_size = 16, mpmc_enable_cv = cv,
            mpmc_in = 0, mpmc_real_in = 0, mpmc_out = 0, mpmc_real_out = 0\<rparr>
           (concat (replicate 1152921504606846975 [Write (replicate 16 0) 16, Read 16])) =
         Some (replicate 1152921504606846975 (replicate 16 0),
           \<lparr>mpmc_buffer = replicate 16 0, mpmc_buf_size = 16, mpmc_enable_cv = cv,
            mpmc_in = 18446744073709551600, mpmc_real_in = 18446744073709551600,
            mpmc_out = 18446744073709551600, mpmc_real_out = 18446744073709551600\<rparr>)"
  using mpmc_pump[of "replicate 16 0" cv 0 1152921504606846975] by simp

section \<open>Further facts about runs\<close>

lemma power_of_two_4: "power_of_two 4"
  unfolding power_of_two_def by (rule bexI[of _ 2]) simp_all

lemma power_of_two_16: "power_of_two 16"
  unfolding power_of_two_def by (rule bexI[of _ 4]) simp_all

lemma memcpy_to_length: "memcpy_to mem off src n = Some m \<Longrightarrow> length m = length mem"
  by (auto simp: memcpy_to_def split: if_splits)

lemma spsc_put_wf: "spsc_put s buf len = Some s' \<Longrightarrow> spsc_wf s \<Longrightarrow> spsc_wf s'"
  by (auto simp: spsc_put_def Let_def spsc_wf_def dest!: memcpy_to_length split: option.splits)

lemma spsc_run_wf:
  "spsc_run s cs = Some (outs, s') \<Longrightarrow> spsc_wf s \<Longrightarrow> spsc_wf s'"
proof (induction cs arbitrary: s outs)
  case Nil
  then show ?case by simp
next
  case (Cons c cs)
  show ?case
  proof (cases c)
    case (Write buf len)
    from spsc_run_Write[OF Cons.prems(1)[unfolded Write]] obtain u s1 where
      w: "spsc_write s buf len = Some (Completed u, s1)" and run: "spsc_run s1 cs = Some (outs, s')"
      by blast
    have "spsc_wf s1" using spsc_put_wf[OF spsc_write_completed(3)[OF w] Cons.prems(2)] .
    then show ?thesis using Cons.IH[OF run] by simp
  next
    case (Read len)
    from spsc_run_Read[OF Cons.prems(1)[unfolded Read]] obtain bytes s1 outs1 where
      r: "spsc_read s len = Some (Completed bytes, s1)" and run: "spsc_run s1 cs = Some (outs1, s')"
      by blast
    have "spsc_wf s1" using spsc_get_cursors[OF spsc_read_completed(2)[OF r]] Cons.prems(2)
      by (simp add: spsc_wf_def)
    then show ?thesis using Cons.IH[OF run] by simp
  qed
qed

lemma mpmc_copy_in_wf: "mpmc_copy_in t e buf len = Some s2 \<Longrightarrow> mpmc_wf t \<Longrightarrow> mpmc_wf s2"
  by (auto simp: mpmc_copy_in_def Let_def mpmc_wf_def dest!: memcpy_to_length split: option.splits)

lemma mpmc_write_wf:
  assumes "mpmc_write s buf len = Some (Completed u, s')" "mpmc_wf s"
  shows "mpmc_wf s'"
proof -
  from assms(1) have p: "mpmc_put s buf len = Some (Completed u, s')" by (simp add: mpmc_write_def)
  then have g: "mpmc_in s + len \<le> mpmc_buf_size s + mpmc_real_out s" by (rule mpmc_put_Some)
  from p g obtain s2 where c: "mpmc_copy_in (s\<lparr>mpmc_in := mpmc_in s + len\<rparr>) (mpmc_in s) buf len = Some s2"
    and s': "s' = s2\<lparr>mpmc_real_in := mpmc_in s + len\<rparr>"
    by (auto simp: mpmc_put_cases split: option.splits if_splits)
  have "mpmc_wf (s\<lparr>mpmc_in := mpmc_in s + len\<rparr>)" using assms(2) by (simp add: mpmc_wf_def)
  from mpmc_copy_in_wf[OF c this] show ?thesis by (simp add: s' mpmc_wf_def)
qed

lemma mpmc_run_wf:
  "mpmc_run s cs = Some (outs, s') \<Longrightarrow> mpmc_wf s \<Longrightarrow> mpmc_wf s'"
proof (induction cs arbitrary: s outs)
  case Nil
  then show ?case by simp
next
  case (Cons c cs)
  show ?case
  proof (cases c)
    case (Write buf len)
    from mpmc_run_Write[OF Cons.prems(1)[unfolded Write]] obtain u s1 where
      w: "mpmc_write s buf len = Some (Completed u, s1)" and run: "mpmc_run s1 cs = Some (outs, s')"
      by blast
    have "mpmc_wf s1" using mpmc_write_wf[OF w Cons.prems(2)] .
    then show ?thesis using Cons.IH[OF run] by simp
  next
    case (Read len)
    from mpmc_run_Read[OF Cons.prems(1)[unfolded Read]] obtain bytes s1 outs1 where
      r: "mpmc_read s len = Some (Completed bytes, s1)" and run: "mpmc_run s1 cs = Some (outs1, s')"
      by blast
    have "mpmc_wf s1" using mpmc_read_completed(3)[OF r] Cons.prems(2)
      by (simp add: mpmc_wf_def)
    then show ?thesis using Cons.IH[OF run] by simp
  qed
qed

lemma ring_write_0 [simp]: "ring_write mem pos src 0 = mem"
  by (simp add: ring_write_def)

lemma ring_read_0 [simp]: "ring_read mem pos 0 = []"
  by (simp add: ring_read_def)

lemma le_plus_word:
  assumes "unat c + unat d < 2 ^ 64" "unat a \<le> unat c + unat d"
  shows "(a::u64) \<le> c + d"
  using assms unat_add_nowrap[OF assms(1)] by (simp add: word_le_nat_alt)

lemma spsc_write_eq:
  assumes "spsc_wf s" and "len \<le> spsc_buf_size s" and "unat len \<le> length buf"
  shows "spsc_write s buf len =
           (if spsc_in s + len \<le> spsc_buf_size s + spsc_out s
            then Some (Completed (),
                   s\<lparr>spsc_buffer := ring_write (spsc_buffer s) (unat (spsc_in s)) buf (unat len),
                     spsc_in := spsc_in s + len\<rparr>)
            else None)"
  using assms by (simp add: spsc_write_cases spsc_put_eq spsc_can_put_def)

lemma spsc_read_eq:
  assumes "spsc_wf s" and "len \<le> spsc_buf_size s"
  shows "spsc_read s len =
           (if len + spsc_out s \<le> spsc_in s
            then Some (Completed (ring_read (spsc_buffer s) (unat (spsc_out s)) (unat len)),
                   s\<lparr>spsc_out := spsc_out s + len\<rparr>)
            else None)"
  using assms by (simp add: spsc_read_cases spsc_get_eq spsc_can_get_def)

lemma spsc_zero_length:
  assumes wf: "spsc_wf s" and inv: "spsc_inv s"
    and nw: "unat (spsc_in s) + unat (spsc_buf_size s) < 2 ^ 64"
  shows "spsc_write s buf 0 = Some (Completed (), s)" "spsc_read s 0 = Some (Completed [], s)"
proof -
  have "unat (spsc_buf_size s) + unat (spsc_out s) < 2 ^ 64" using inv nw by (simp add: spsc_inv_def)
  moreover have "unat (spsc_in s) \<le> unat (spsc_buf_size s) + unat (spsc_out s)"
    using inv by (simp add: spsc_inv_def)
  ultimately have g: "spsc_in s \<le> spsc_buf_size s + spsc_out s" by (rule le_plus_word)
  have g': "spsc_out s \<le> spsc_in s" using inv by (simp add: spsc_inv_def word_le_nat_alt)
  from spsc_write_eq[OF wf, of 0 buf] spsc_read_eq[OF wf, of 0] g g'
  show "spsc_write s buf 0 = Some (Completed (), s)" "spsc_read s 0 = Some (Completed [], s)"
    by simp_all
qed

lemma mpmc_zero_length:
  assumes wf: "mpmc_wf s" and inv: "mpmc_chain s" and q: "mpmc_quiescent s"
    and nw: "unat (mpmc_in s) + unat (mpmc_buf_size s) < 2 ^ 64"
  shows "mpmc_write s buf 0 = Some (Completed (), s)" "mpmc_read s 0 = Some (Completed [], s)"
proof -
  have "unat (mpmc_buf_size s) + unat (mpmc_real_out s) < 2 ^ 64"
    using inv nw by (simp add: mpmc_chain_def)
  moreover have "unat (mpmc_in s) \<le> unat (mpmc_buf_size s) + unat (mpmc_real_out s)"
    using inv by (simp add: mpmc_chain_def)
  ultimately have g: "mpmc_in s \<le> mpmc_buf_size s + mpmc_real_out s" by (rule le_plus_word)
  have g': "mpmc_out s \<le> mpmc_real_in s" using inv by (simp add: mpmc_chain_def word_le_nat_alt)
  have wf': "mpmc_wf (s\<lparr>mpmc_in := mpmc_in s\<rparr>)" using wf by (simp add: mpmc_wf_def)
  show "mpmc_write s buf 0 = Some (Completed (), s)"
    using g q mpmc_copy_in_eq[OF wf', of 0 buf "mpmc_in s"]
    by (simp add: mpmc_write_def mpmc_put_cases mpmc_quiescent_def)
  show "mpmc_read s 0 = Some (Completed [], s)"
    using g' q mpmc_copy_out_eq[OF wf, of 0 "mpmc_out s"]
    by (simp add: mpmc_read_def mpmc_get_cases mpmc_quiescent_def mpmc_copy_out_def)
qed


lemma bytes_written_append [simp]: "bytes_written (cs @ ds) = bytes_written cs + bytes_written ds"
  by (induction cs rule: bytes_written.induct) simp_all

lemma chunks_written_append [simp]: "chunks_written (cs @ ds) = chunks_written cs @ chunks_written ds"
  by (induction cs rule: chunks_written.induct) simp_all

lemma read_lens_append [simp]: "read_lens (cs @ ds) = read_lens cs @ read_lens ds"
  by (induction cs rule: read_lens.induct) simp_all

lemma spsc_inv_fresh: "spsc_in s = 0 \<Longrightarrow> spsc_out s = 0 \<Longrightarrow> spsc_inv s"
  by (simp add: spsc_inv_def)

lemma mpmc_chain_fresh:
  "mpmc_in s = 0 \<Longrightarrow> mpmc_real_in s = 0 \<Longrightarrow> mpmc_out s = 0 \<Longrightarrow> mpmc_real_out s = 0 \<Longrightarrow>
     mpmc_chain s \<and> mpmc_quiescent s"
  by (simp add: mpmc_chain_def mpmc_quiescent_def)

lemma concat_same_lengths:
  "map length xs = map length ys \<Longrightarrow> concat xs = concat ys \<Longrightarrow> xs = ys"
proof (induction xs arbitrary: ys)
  case Nil
  then show ?case by simp
next
  case (Cons x xs)
  then obtain y ys' where ys: "ys = y # ys'" by (cases ys) auto
  with Cons.prems have "length x = length y" "map length xs = map length ys'"
    "x @ concat xs = y @ concat ys'" by simp_all
  then have "x = y" "concat xs = concat ys'" by simp_all
  then show ?case using Cons.IH[of ys'] \<open>map length xs = map length ys'\<close> ys by simp
qed

lemmas spsc_eval = spsc_write_cases spsc_read_cases spsc_can_put_def spsc_can_get_def
  spsc_put_def spsc_get_def memcpy_to_def memcpy_from_def Let_def

lemmas mpmc_eval = mpmc_write_def mpmc_read_def mpmc_put_cases mpmc_get_cases
  mpmc_copy_in_def mpmc_copy_out_def memcpy_to_def memcpy_from_def Let_def

lemma run4:
  "spsc_run \<lparr>spsc_buffer = [0, 0, 0, 0], spsc_buf_size = 4, spsc_enable_cv = False,
               spsc_in = 0, spsc_out = 0\<rparr>
      [Write [1, 2, 3] 3, Read 2, Write [4, 5] 2] =
   Some ([[1, 2]],
     \<lparr>spsc_buffer = [5, 2, 3, 4], spsc_buf_size = 4, spsc_enable_cv = False,
      spsc_in = 5, spsc_out = 2\<rparr>)"
  by (simp add: spsc_eval)

lemma mrun4:
  "mpmc_run \<lparr>mpmc_buffer = [0, 0, 0, 0], mpmc_buf_size = 4, mpmc_enable_cv = False,
               mpmc_in = 0, mpmc_real_in = 0, mpmc_out = 0, mpmc_real_out = 0\<rparr>
      [Write [1, 2, 3] 3, Read 2, Write [4, 5] 2] =
   Some ([[1, 2]],
     \<lparr>mpmc_buffer = [5, 2, 3, 4], mpmc_buf_size = 4, mpmc_enable_cv = False,
      mpmc_in = 5, mpmc_real_in = 5, mpmc_out = 2, mpmc_real_out = 2\<rparr>)"
  by (simp add: mpmc_eval)

lemma hi_aligned: "(18446744073709551600 :: u64) AND 15 = 0"
  by simp

lemma hi_plus_16: "(18446744073709551600 :: u64) + 16 = 0"
  by simp

lemma spsc_wrapping_write:
  "spsc_run \<lparr>spsc_buffer = replicate 16 0, spsc_buf_size = 16, spsc_enable_cv = False, spsc_in = 0, spsc_out = 0\<rparr> (concat (replicate 1152921504606846975 [Write (replicate 16 0) 16, Read 16]) @ [Write (replicate 16 0) 16]) =
     Some (replicate 1152921504606846975 (replicate 16 0), \<lparr>spsc_buffer = replicate 16 0, spsc_buf_size = 16, spsc_enable_cv = False, spsc_in = 0, spsc_out = 18446744073709551600\<rparr>)"
  using aligned_write_16[of "18446744073709551600" "replicate 16 0" "replicate 16 0" "18446744073709551600" False]
  by (simp add: spsc_run_append spsc_pump_to_wrap)

lemma abc_run:
  "spsc_run \<lparr>spsc_buffer = replicate 16 0, spsc_buf_size = 16, spsc_enable_cv = True, spsc_in = 0, spsc_out = 0\<rparr> [Write [65, 66, 67, 68, 69, 70, 71, 72, 73, 74] 10, Read 10] =
     Some ([[65, 66, 67, 68, 69, 70, 71, 72, 73, 74]], \<lparr>spsc_buffer = [65, 66, 67, 68, 69, 70, 71, 72, 73, 74] @ replicate 6 0, spsc_buf_size = 16, spsc_enable_cv = True, spsc_in = 10, spsc_out = 10\<rparr>)"
  by (simp add: spsc_eval)

lemma chunks_written_pump:
  "chunks_written (concat (replicate k [Write (replicate 16 0) 16, Read 16])) =
     replicate k (replicate 16 0)"
  by (induction k) simp_all

lemma read_lens_pump:
  "read_lens (concat (replicate k [Write (replicate 16 0) 16, Read 16])) = replicate k 16"
  by (induction k) simp_all

lemma wrap_numeral: "(18446744073709551616::u64) = 0"
  by simp

lemma spsc_early_read:
  "spsc_run \<lparr>spsc_buffer = replicate 16 0, spsc_buf_size = 16, spsc_enable_cv = False, spsc_in = 0, spsc_out = 0\<rparr> (concat (replicate 1152921504606846975 [Write (replicate 16 0) 16, Read 16]) @ [Read 16, Write (replicate 16 1) 16]) =
     Some (replicate 1152921504606846975 (replicate 16 0) @ [replicate 16 0], \<lparr>spsc_buffer = replicate 16 1, spsc_buf_size = 16, spsc_enable_cv = False, spsc_in = 0, spsc_out = 0\<rparr>)"
  using aligned_read_16[of "18446744073709551600" "replicate 16 0" "18446744073709551600" False]
    aligned_write_16[of "18446744073709551600" "replicate 16 0" "replicate 16 1" 0 False]
  by (simp add: spsc_run_append spsc_pump_to_wrap wrap_numeral)

lemma top_and_15: "(18446744073709551615 :: u64) AND 15 = 15"
  by simp

lemma top_plus_1: "(18446744073709551615 :: u64) + 1 = 0"
  by simp

lemma word_guard_nat:
  assumes "unat a + unat b < 2 ^ 64" and "unat c + unat d < 2 ^ 64"
  shows "(a + b \<le> c + (d::u64)) = (unat a + unat b \<le> unat c + unat d)"
  using unat_add_nowrap[OF assms(1)] unat_add_nowrap[OF assms(2)] by (simp add: word_le_nat_alt)

lemma unat_of_length:
  assumes "n \<le> unat (cap :: u64)"
  shows "unat (of_nat n :: u64) = n" "(of_nat n :: u64) \<le> cap"
proof -
  have "unat cap < 2 ^ 64" using unsigned_less[of cap, where 'a = nat] by simp
  then have "n < 2 ^ 64" using assms by simp
  then show u: "unat (of_nat n :: u64) = n" by (simp add: unat_of_nat)
  show "(of_nat n :: u64) \<le> cap" using assms u by (simp add: word_le_nat_alt)
qed

lemma alternate_facts:
  assumes "\<forall>c\<in>set chunks. length c \<le> unat (cap :: u64)"
  shows "chunks_written (alternate chunks) = chunks \<and>
         read_lens (alternate chunks) = map length chunks \<and>
         bytes_written (alternate chunks) = sum_list (map length chunks) \<and>
         (\<forall>c\<in>set (alternate chunks). call_len c \<le> cap)"
  using assms
proof (induction chunks)
  case Nil
  then show ?case by simp
next
  case (Cons a chunks)
  have "length a \<le> unat cap" using Cons.prems by simp
  note u = unat_of_length[OF this]
  show ?case using Cons u by simp
qed

lemma spsc_alternate_completes:
  assumes "spsc_wf s" and "spsc_in s = spsc_out s"
    and "\<forall>c\<in>set chunks. length c \<le> unat (spsc_buf_size s)"
    and "unat (spsc_in s) + sum_list (map length chunks) + unat (spsc_buf_size s) < 2 ^ 64"
  shows "\<exists>outs s'. spsc_run s (alternate chunks) = Some (outs, s')"
  using assms
proof (induction chunks arbitrary: s)
  case Nil
  then show ?case by simp
next
  case (Cons c chunks)
  define len :: u64 where "len = of_nat (length c)"
  have lc: "length c \<le> unat (spsc_buf_size s)" using Cons.prems(3) by simp
  have ul: "unat len = length c" and le: "len \<le> spsc_buf_size s"
    using unat_of_length[OF lc] by (simp_all add: len_def)
  have a: "unat (spsc_in s) + unat len < 2 ^ 64" using Cons.prems(4) ul lc by simp
  have b: "unat (spsc_buf_size s) + unat (spsc_out s) < 2 ^ 64"
    using Cons.prems(2,4) by simp
  have "unat (spsc_in s + len) \<le> unat (spsc_buf_size s) + unat (spsc_out s)"
    using unat_add_nowrap[OF a] ul lc Cons.prems(2) by simp
  then have g: "spsc_in s + len \<le> spsc_buf_size s + spsc_out s"
    using le_plus_word[OF b] by simp
  define s1 where "s1 = s\<lparr>spsc_buffer := ring_write (spsc_buffer s) (unat (spsc_in s)) c (unat len),
                          spsc_in := spsc_in s + len\<rparr>"
  have w: "spsc_write s c len = Some (Completed (), s1)"
    using spsc_write_eq[OF Cons.prems(1) le, of c] ul g by (simp add: s1_def)
  have wf1: "spsc_wf s1"
    using spsc_put_wf[OF spsc_write_completed(3)[OF w] Cons.prems(1)] .
  have le1: "len \<le> spsc_buf_size s1" using le by (simp add: s1_def)
  have g1: "len + spsc_out s1 \<le> spsc_in s1" using Cons.prems(2) by (simp add: s1_def ac_simps)
  define s2 where "s2 = s1\<lparr>spsc_out := spsc_out s1 + len\<rparr>"
  have r: "spsc_read s1 len =
             Some (Completed (ring_read (spsc_buffer s1) (unat (spsc_out s1)) (unat len)), s2)"
    using spsc_read_eq[OF wf1 le1] g1 by (simp add: s2_def)
  have wf2: "spsc_wf s2" using wf1 by (simp add: s2_def spsc_wf_def)
  have e2: "spsc_in s2 = spsc_out s2" using Cons.prems(2) by (simp add: s2_def s1_def)
  have bs: "spsc_buf_size s2 = spsc_buf_size s" by (simp add: s2_def s1_def)
  have i2: "unat (spsc_in s2) = unat (spsc_in s) + length c"
    using unat_add_nowrap[OF a] ul by (simp add: s2_def s1_def)
  have l2: "\<forall>c\<in>set chunks. length c \<le> unat (spsc_buf_size s2)"
    using Cons.prems(3) bs by simp
  have n2: "unat (spsc_in s2) + sum_list (map length chunks) + unat (spsc_buf_size s2) < 2 ^ 64"
    using Cons.prems(4) i2 bs by simp
  from Cons.IH[OF wf2 e2 l2 n2] obtain outs s' where
    "spsc_run s2 (alternate chunks) = Some (outs, s')" by blast
  then show ?case using w r by (simp add: len_def)
qed

section \<open>Concurrent calls: the invariants\<close>

lemma thread_ok_grows: "grows s s' \<Longrightarrow> thread_ok s t \<Longrightarrow> thread_ok s' t"
  by (induction s t rule: thread_ok.induct) (auto simp: grows_def)

lemma put_step_inv:
  assumes chain: "mpmc_chain s" and len: "len \<le> mpmc_buf_size s"
    and ok: "thread_ok s (Put_thread buf len p)"
    and nw: "unat (mpmc_in s) + unreserved (Put_thread buf len p) + unat (mpmc_buf_size s) < 2 ^ 64"
    and step: "put_step s buf len p = (s', p')"
  shows "mpmc_chain s' \<and> grows s s' \<and> thread_ok s' (Put_thread buf len p') \<and>
         unat (mpmc_in s') + unreserved (Put_thread buf len p') =
           unat (mpmc_in s) + unreserved (Put_thread buf len p)"
proof (cases p)
  case At_wait
  then show ?thesis using assms by (auto simp: grows_def split: if_splits)
next
  case At_load
  then show ?thesis using assms by (auto simp: grows_def)
next
  case (At_check e)
  have "unat e + unat len < 2 ^ 64" using ok nw At_check by simp
  then have "unat e + unat len \<le> unat (mpmc_buf_size s) + unat (mpmc_real_out s)"
    if "e + len \<le> mpmc_buf_size s + mpmc_real_out s"
    using that by (rule le_plus_nat)
  then show ?thesis using assms At_check by (auto simp: grows_def not_less split: if_splits)
next
  case (At_cas e)
  show ?thesis
  proof (cases "mpmc_in s = e")
    case True
    have "unat e + unat len < 2 ^ 64" using nw At_cas True by simp
    then have u: "unat (e + len) = unat e + unat len" by (rule unat_add_nowrap)
    have s': "s' = s\<lparr>mpmc_in := e + len\<rparr>" "p' = At_copy e"
      using step At_cas True by (simp_all add: compare_exchange_def)
    show ?thesis using chain ok u True At_cas
      by (simp add: s' mpmc_chain_def grows_def)
  next
    case False
    then have "s' = s" "p' = At_wait" using step At_cas by (simp_all add: compare_exchange_def)
    then show ?thesis using chain At_cas by (simp add: grows_def)
  qed
next
  case (At_copy e)
  show ?thesis
  proof (cases "mpmc_copy_in s e buf len")
    case None
    then show ?thesis using assms At_copy by (auto simp: grows_def)
  next
    case (Some s2)
    from mpmc_copy_in_cursors[OF Some] obtain m where "s2 = s\<lparr>mpmc_buffer := m\<rparr>" by blast
    then show ?thesis using assms At_copy Some by (auto simp: grows_def mpmc_chain_def)
  qed
next
  case (At_commit e bak)
  show ?thesis
  proof (cases "mpmc_real_in s = e")
    case True
    have le: "unat e + unat len \<le> unat (mpmc_in s)" using ok At_commit by simp
    then have "unat e + unat len < 2 ^ 64" using nw by simp
    then have u: "unat (e + len) = unat e + unat len" by (rule unat_add_nowrap)
    have s': "s' = s\<lparr>mpmc_real_in := e + len\<rparr>" "p' = At_notify"
      using step At_commit True by (simp_all add: compare_exchange_def)
    show ?thesis using chain le u True At_commit
      by (simp add: s' mpmc_chain_def grows_def)
  next
    case False
    then have "s' = s" "p' = At_commit bak bak"
      using step At_commit by (simp_all add: compare_exchange_def)
    moreover from ok At_commit have "e = bak" "unat bak + unat len \<le> unat (mpmc_in s)"
      by auto
    ultimately show ?thesis using chain At_commit by (simp add: grows_def)
  qed
next
  case At_notify
  then show ?thesis using assms by (auto simp: grows_def)
next
  case Returned
  then show ?thesis using assms by (auto simp: grows_def)
next
  case Faulted
  then show ?thesis using assms by (auto simp: grows_def)
qed

lemma get_step_inv:
  assumes chain: "mpmc_chain s" and len: "len \<le> mpmc_buf_size s"
    and ok: "thread_ok s (Get_thread len p bytes)"
    and nw: "unat (mpmc_in s) + unat (mpmc_buf_size s) < 2 ^ 64"
    and step: "get_step s len p bytes = (s', p', bytes')"
  shows "mpmc_chain s' \<and> grows s s' \<and> thread_ok s' (Get_thread len p' bytes') \<and>
         mpmc_in s' = mpmc_in s"
proof (cases p)
  case At_wait
  then show ?thesis using assms by (auto simp: grows_def split: if_splits)
next
  case At_load
  then show ?thesis using assms by (auto simp: grows_def)
next
  case (At_check e)
  have "unat e \<le> unat (mpmc_in s)" using ok chain At_check by (simp add: mpmc_chain_def)
  moreover have "unat len \<le> unat (mpmc_buf_size s)" using len by (simp add: word_le_nat_alt)
  ultimately have "unat e + unat len < 2 ^ 64" using nw by simp
  then have "unat e + unat len \<le> unat (mpmc_real_in s)"
    if "e + len \<le> mpmc_real_in s"
    using that by (rule plus_le_nat)
  then show ?thesis using assms At_check by (auto simp: grows_def not_less split: if_splits)
next
  case (At_cas e)
  show ?thesis
  proof (cases "mpmc_out s = e")
    case True
    have le: "unat e + unat len \<le> unat (mpmc_real_in s)" using ok At_cas by simp
    then have "unat e + unat len < 2 ^ 64" using nw chain by (simp add: mpmc_chain_def)
    then have u: "unat (e + len) = unat e + unat len" by (rule unat_add_nowrap)
    have s': "s' = s\<lparr>mpmc_out := e + len\<rparr>" "p' = At_copy e" "bytes' = bytes"
      using step At_cas True by (simp_all add: compare_exchange_def)
    show ?thesis using chain le u True At_cas
      by (simp add: s' mpmc_chain_def grows_def)
  next
    case False
    then have "s' = s" "p' = At_wait" using step At_cas by (simp_all add: compare_exchange_def)
    then show ?thesis using chain At_cas by (simp add: grows_def)
  qed
next
  case (At_copy e)
  then show ?thesis using assms by (auto simp: grows_def split: option.splits)
next
  case (At_commit e bak)
  show ?thesis
  proof (cases "mpmc_real_out s = e")
    case True
    have le: "unat e + unat len \<le> unat (mpmc_out s)" using ok At_commit by simp
    then have "unat e + unat len < 2 ^ 64" using nw chain by (simp add: mpmc_chain_def)
    then have u: "unat (e + len) = unat e + unat len" by (rule unat_add_nowrap)
    have s': "s' = s\<lparr>mpmc_real_out := e + len\<rparr>" "p' = At_notify"
      using step At_commit True by (simp_all add: compare_exchange_def)
    show ?thesis using chain le u True At_commit
      by (simp add: s' mpmc_chain_def grows_def)
  next
    case False
    then have "s' = s" "p' = At_commit bak bak"
      using step At_commit by (simp_all add: compare_exchange_def)
    moreover from ok At_commit have "e = bak" "unat bak + unat len \<le> unat (mpmc_out s)"
      by auto
    ultimately show ?thesis using chain At_commit by (simp add: grows_def)
  qed
next
  case At_notify
  then show ?thesis using assms by (auto simp: grows_def)
next
  case Returned
  then show ?thesis using assms by (auto simp: grows_def)
next
  case Faulted
  then show ?thesis using assms by (auto simp: grows_def)
qed

lemma unreserved_get [simp]: "unreserved (Get_thread len p bytes) = 0"
  by simp

lemma thread_step_inv:
  assumes chain: "mpmc_chain s" and len: "thread_len t \<le> mpmc_buf_size s"
    and ok: "thread_ok s t"
    and nw: "unat (mpmc_in s) + unreserved t + unat (mpmc_buf_size s) < 2 ^ 64"
    and step: "thread_step s t = (s', t')"
  shows "mpmc_chain s' \<and> grows s s' \<and> thread_ok s' t' \<and> thread_len t' = thread_len t \<and>
         unat (mpmc_in s') + unreserved t' = unat (mpmc_in s) + unreserved t"
proof (cases t)
  case (Put_thread buf l p)
  obtain s1 p1 where st: "put_step s buf l p = (s1, p1)" by (cases "put_step s buf l p")
  from put_step_inv[OF chain _ _ _ st] assms Put_thread st show ?thesis by auto
next
  case (Get_thread l p bytes)
  obtain s1 p1 b1 where st: "get_step s l p bytes = (s1, p1, b1)"
    by (cases "get_step s l p bytes")
  from get_step_inv[OF chain _ _ _ st] assms Get_thread st show ?thesis by auto
qed

lemma mpmc_step_inv:
  assumes "mpmc_inv c"
  shows "mpmc_inv (mpmc_step c i)"
proof -
  obtain s ts where c: "c = (s, ts)" by (cases c)
  show ?thesis
  proof (cases "i < length ts")
    case False
    then show ?thesis using assms c by simp
  next
    case True
    define t where "t = ts ! i"
    obtain s' t' where st: "thread_step s t = (s', t')" by (cases "thread_step s t")
    have res: "mpmc_step c i = (s', ts[i := t'])" using True st c by (simp add: t_def)
    from assms c have chain: "mpmc_chain s"
      and all: "\<forall>t\<in>set ts. thread_len t \<le> mpmc_buf_size s \<and> thread_ok s t"
      and b: "unat (mpmc_in s) + sum_list (map unreserved ts) + unat (mpmc_buf_size s) < 2 ^ 64"
      by (simp_all add: mpmc_inv_def)
    have tin: "t \<in> set ts" using True by (simp add: t_def)
    then have "unreserved t \<in> set (map unreserved ts)" by simp
    then have ule: "unreserved t \<le> sum_list (map unreserved ts)"
      using member_le_sum_list[of "unreserved t" "map unreserved ts"] by simp
    then have nw: "unat (mpmc_in s) + unreserved t + unat (mpmc_buf_size s) < 2 ^ 64"
      using b by simp
    from thread_step_inv[OF chain _ _ nw st] all tin
    have chain': "mpmc_chain s'" and g: "grows s s'" and ok': "thread_ok s' t'"
      and len': "thread_len t' = thread_len t"
      and acc: "unat (mpmc_in s') + unreserved t' = unat (mpmc_in s) + unreserved t"
      by simp_all
    have bs: "mpmc_buf_size s' = mpmc_buf_size s" using g by (simp add: grows_def)
    have all': "\<forall>x\<in>set (ts[i := t']). thread_len x \<le> mpmc_buf_size s' \<and> thread_ok s' x"
    proof
      fix x assume "x \<in> set (ts[i := t'])"
      then have "x = t' \<or> x \<in> set ts" using set_update_subset_insert[of ts i t'] by auto
      then show "thread_len x \<le> mpmc_buf_size s' \<and> thread_ok s' x"
        using ok' len' all tin bs thread_ok_grows[OF g] by auto
    qed
    have "sum_list (map unreserved (ts[i := t'])) =
            sum_list (map unreserved ts) + unreserved t' - unreserved t"
      using True by (simp add: map_update sum_list_update t_def)
    then have "unat (mpmc_in s') + sum_list (map unreserved (ts[i := t'])) =
                 unat (mpmc_in s) + sum_list (map unreserved ts)"
      using acc ule by simp
    then have b': "unat (mpmc_in s') + sum_list (map unreserved (ts[i := t'])) +
                     unat (mpmc_buf_size s') < 2 ^ 64"
      using b bs by simp
    show ?thesis using chain' all' b' by (simp add: res mpmc_inv_def)
  qed
qed

lemma mpmc_exec_inv: "mpmc_inv c \<Longrightarrow> mpmc_inv (mpmc_exec c sched)"
  by (induction sched arbitrary: c) (simp_all add: mpmc_step_inv)

lemma unreserved_start: "sum_list (map unreserved (map start cs)) = bytes_written cs"
  by (induction cs rule: bytes_written.induct) simp_all

lemma mpmc_inv_start:
  assumes "mpmc_in s0 = 0" "mpmc_real_in s0 = 0" "mpmc_out s0 = 0" "mpmc_real_out s0 = 0"
    and "\<forall>c\<in>set cs. call_len c \<le> mpmc_buf_size s0"
    and "bytes_written cs + unat (mpmc_buf_size s0) < 2 ^ 64"
  shows "mpmc_inv (s0, map start cs)"
proof -
  have "thread_len (start c) = call_len c \<and> thread_ok s0 (start c)" for c
    by (cases c) simp_all
  then show ?thesis using assms unreserved_start[of cs]
    by (simp add: mpmc_inv_def mpmc_chain_def comp_def)
qed


lemma tiles_keep:
  assumes "tiles rng ts lo hi" "i < length ts" "rng t' = rng (ts ! i)"
  shows "tiles rng (ts[i := t']) lo hi"
proof -
  have "rng (ts[i := t'] ! j) = rng (ts ! j)" if "j < length ts" for j
    using that assms(2,3) by (cases "j = i") simp_all
  then show ?thesis using assms(1) unfolding tiles_def by (simp cong: conj_cong)
qed

lemma tiles_reserve:
  assumes t: "tiles rng ts lo hi" and i: "i < length ts" and n: "rng (ts ! i) = None"
    and r: "rng t' = Some (hi, hi')" and pos: "hi < hi'" and lohi: "lo \<le> hi"
  shows "tiles rng (ts[i := t']) lo hi'"
  unfolding tiles_def
proof (intro conjI allI impI)
  fix j a b assume j: "j < length (ts[i := t'])" and "rng (ts[i := t'] ! j) = Some (a, b)"
  then show "lo \<le> a" "a < b" "b \<le> hi'"
    using t i r pos lohi unfolding tiles_def by (cases "j = i"; fastforce)+
next
  fix j k a b c d
  assume j: "j < length (ts[i := t'])" and k: "k < length (ts[i := t'])"
    and h: "j \<noteq> k \<and> rng (ts[i := t'] ! j) = Some (a, b) \<and> rng (ts[i := t'] ! k) = Some (c, d)"
  show "b \<le> c \<or> d \<le> a"
  proof (cases "j = i")
    case True
    then have "a = hi" using h r i by simp
    moreover have "d \<le> hi" using h True t k unfolding tiles_def by fastforce
    ultimately show ?thesis by simp
  next
    case False
    show ?thesis
    proof (cases "k = i")
      case True
      then have "c = hi" using h r i by simp
      moreover have "b \<le> hi" using h False t j unfolding tiles_def by fastforce
      ultimately show ?thesis by simp
    next
      case F2: False
      then show ?thesis using h False t j k unfolding tiles_def by fastforce
    qed
  qed
next
  fix p assume p: "lo \<le> p \<and> p < hi'"
  show "\<exists>j<length (ts[i := t']). \<exists>a b. rng (ts[i := t'] ! j) = Some (a, b) \<and> a \<le> p \<and> p < b"
  proof (cases "p < hi")
    case True
    with p t obtain j a b where j: "j < length ts" "rng (ts ! j) = Some (a, b)" "a \<le> p" "p < b"
      unfolding tiles_def by blast
    then have "j \<noteq> i" using n by auto
    then show ?thesis using j by (intro exI[of _ j]) simp
  next
    case False
    then show ?thesis using p r i by (intro exI[of _ i]) simp
  qed
qed

lemma tiles_first:
  assumes t: "tiles rng ts lo hi" and i: "i < length ts" and r: "rng (ts ! i) = Some (lo, b)"
    and j: "j < length ts" "j \<noteq> i" and rj: "rng (ts ! j) = Some (c, d)"
  shows "b \<le> c"
proof -
  have "lo \<le> c" "c < d" using t j rj unfolding tiles_def by blast+
  moreover have "b \<le> c \<or> d \<le> lo" using t i j r rj unfolding tiles_def by blast
  ultimately show ?thesis by simp
qed

lemma tiles_commit:
  assumes t: "tiles rng ts lo hi" and i: "i < length ts" and r: "rng (ts ! i) = Some (lo, b)"
    and n: "rng t' = None"
  shows "tiles rng (ts[i := t']) b hi"
  unfolding tiles_def
proof (intro conjI allI impI)
  fix j a' b' assume j: "j < length (ts[i := t'])" and h: "rng (ts[i := t'] ! j) = Some (a', b')"
  then have ji: "j \<noteq> i" using n i by auto
  then have rj: "rng (ts ! j) = Some (a', b')" using h by simp
  from tiles_first[OF t i r _ ji rj] j show "b \<le> a'" by simp
  show "a' < b'" "b' \<le> hi" using t j rj unfolding tiles_def by fastforce+
next
  fix j k a' b' c d
  assume j: "j < length (ts[i := t'])" and k: "k < length (ts[i := t'])"
    and h: "j \<noteq> k \<and> rng (ts[i := t'] ! j) = Some (a', b') \<and> rng (ts[i := t'] ! k) = Some (c, d)"
  then have "j \<noteq> i" "k \<noteq> i" using n i by auto
  then show "b' \<le> c \<or> d \<le> a'" using h t j k unfolding tiles_def by fastforce
next
  fix p assume p: "b \<le> p \<and> p < hi"
  have "lo < b" using t i r unfolding tiles_def by blast
  with p t obtain j a' b' where j: "j < length ts" "rng (ts ! j) = Some (a', b')" "a' \<le> p" "p < b'"
    unfolding tiles_def by (metis le_trans less_imp_le_nat)
  then have "j \<noteq> i" using r p by auto
  then show "\<exists>j<length (ts[i := t']). \<exists>a b. rng (ts[i := t'] ! j) = Some (a, b) \<and> a \<le> p \<and> p < b"
    using j by (intro exI[of _ j]) simp
qed

lemma tiles_empty: "\<forall>t\<in>set ts. rng t = None \<Longrightarrow> tiles rng ts lo lo"
  unfolding tiles_def by auto


lemma put_step_range:
  assumes chain: "mpmc_chain s" and len: "len \<le> mpmc_buf_size s"
    and ok: "thread_ok s (Put_thread buf len p)"
    and nw: "unat (mpmc_in s) + unreserved (Put_thread buf len p) + unat (mpmc_buf_size s) < 2 ^ 64"
    and wf: "mpmc_wf s" and fit: "thread_fit (Put_thread buf len p)"
    and step: "put_step s buf len p = (s', p')"
  shows "mpmc_wf s' \<and> thread_fit (Put_thread buf len p') \<and>
         mpmc_out s' = mpmc_out s \<and> mpmc_real_out s' = mpmc_real_out s \<and>
         (mpmc_in s' = mpmc_in s \<and> mpmc_real_in s' = mpmc_real_in s \<and>
            put_range (Put_thread buf len p') = put_range (Put_thread buf len p) \<or>
          mpmc_real_in s' = mpmc_real_in s \<and> put_range (Put_thread buf len p) = None \<and>
            put_range (Put_thread buf len p') = Some (unat (mpmc_in s), unat (mpmc_in s')) \<and>
            unat (mpmc_in s) < unat (mpmc_in s') \<or>
          mpmc_in s' = mpmc_in s \<and>
            put_range (Put_thread buf len p) = Some (unat (mpmc_real_in s), unat (mpmc_real_in s')) \<and>
            put_range (Put_thread buf len p') = None)"
proof -
  have pos: "0 < unat len" using fit by (simp add: word_less_nat_alt)
  show ?thesis
  proof (cases p)
    case At_wait
    then show ?thesis using assms by (auto split: if_splits)
  next
    case At_load
    then show ?thesis using assms by auto
  next
    case (At_check e)
    then show ?thesis using assms by (auto split: if_splits)
  next
    case (At_cas e)
    show ?thesis
    proof (cases "mpmc_in s = e")
      case True
      have "unat e + unat len < 2 ^ 64" using nw At_cas True by simp
      then have u: "unat (e + len) = unat e + unat len" by (rule unat_add_nowrap)
      have s': "s' = s\<lparr>mpmc_in := e + len\<rparr>" "p' = At_copy e"
        using step At_cas True by (simp_all add: compare_exchange_def)
      show ?thesis using wf fit u True At_cas pos
        by (simp add: s' mpmc_wf_def)
    next
      case False
      then have "s' = s" "p' = At_wait" using step At_cas by (simp_all add: compare_exchange_def)
      then show ?thesis using wf fit At_cas by simp
    qed
  next
    case (At_copy e)
    have "unat len \<le> length buf" using fit by simp
    from mpmc_copy_in_eq[OF wf len this, of e]
    have "s' = s\<lparr>mpmc_buffer := ring_write (mpmc_buffer s) (unat e) buf (unat len)\<rparr>"
      "p' = At_commit e e" using step At_copy by simp_all
    then show ?thesis using wf fit At_copy by (simp add: mpmc_wf_def)
  next
    case (At_commit e bak)
    from ok At_commit have eb: "e = bak" and le: "unat bak + unat len \<le> unat (mpmc_in s)"
      by simp_all
    show ?thesis
    proof (cases "mpmc_real_in s = e")
      case True
      have "unat e + unat len < 2 ^ 64" using nw le eb by simp
      then have u: "unat (e + len) = unat e + unat len" by (rule unat_add_nowrap)
      have s': "s' = s\<lparr>mpmc_real_in := e + len\<rparr>" "p' = At_notify"
        using step At_commit True by (simp_all add: compare_exchange_def)
      show ?thesis using wf fit u True At_commit eb
        by (simp add: s' mpmc_wf_def)
    next
      case False
      then have "s' = s" "p' = At_commit bak bak"
        using step At_commit by (simp_all add: compare_exchange_def)
      then show ?thesis using wf fit At_commit by simp
    qed
  next
    case At_notify
    then show ?thesis using assms by auto
  next
    case Returned
    then show ?thesis using assms by auto
  next
    case Faulted
    then show ?thesis using assms by auto
  qed
qed

lemma get_step_range:
  assumes chain: "mpmc_chain s" and len: "len \<le> mpmc_buf_size s"
    and ok: "thread_ok s (Get_thread len p bytes)"
    and nw: "unat (mpmc_in s) + unat (mpmc_buf_size s) < 2 ^ 64"
    and wf: "mpmc_wf s" and fit: "thread_fit (Get_thread len p bytes)"
    and step: "get_step s len p bytes = (s', p', bytes')"
  shows "mpmc_wf s' \<and> thread_fit (Get_thread len p' bytes') \<and>
         mpmc_in s' = mpmc_in s \<and> mpmc_real_in s' = mpmc_real_in s \<and>
         (mpmc_out s' = mpmc_out s \<and> mpmc_real_out s' = mpmc_real_out s \<and>
            get_range (Get_thread len p' bytes') = get_range (Get_thread len p bytes) \<or>
          mpmc_real_out s' = mpmc_real_out s \<and> get_range (Get_thread len p bytes) = None \<and>
            get_range (Get_thread len p' bytes') = Some (unat (mpmc_out s), unat (mpmc_out s')) \<and>
            unat (mpmc_out s) < unat (mpmc_out s') \<or>
          mpmc_out s' = mpmc_out s \<and>
            get_range (Get_thread len p bytes) =
              Some (unat (mpmc_real_out s), unat (mpmc_real_out s')) \<and>
            get_range (Get_thread len p' bytes') = None)"
proof -
  have pos: "0 < unat len" using fit by (simp add: word_less_nat_alt)
  show ?thesis
  proof (cases p)
    case At_wait
    then show ?thesis using assms by (auto split: if_splits)
  next
    case At_load
    then show ?thesis using assms by auto
  next
    case (At_check e)
    then show ?thesis using assms by (auto split: if_splits)
  next
    case (At_cas e)
    show ?thesis
    proof (cases "mpmc_out s = e")
      case True
      have le: "unat e + unat len \<le> unat (mpmc_real_in s)" using ok At_cas by simp
      then have "unat e + unat len < 2 ^ 64" using nw chain by (simp add: mpmc_chain_def)
      then have u: "unat (e + len) = unat e + unat len" by (rule unat_add_nowrap)
      have s': "s' = s\<lparr>mpmc_out := e + len\<rparr>" "p' = At_copy e" "bytes' = bytes"
        using step At_cas True by (simp_all add: compare_exchange_def)
      show ?thesis using wf fit u True At_cas pos
        by (simp add: s' mpmc_wf_def)
    next
      case False
      then have "s' = s" "p' = At_wait" "bytes' = bytes"
        using step At_cas by (simp_all add: compare_exchange_def)
      then show ?thesis using wf fit At_cas by simp
    qed
  next
    case (At_copy e)
    from mpmc_copy_out_eq[OF wf len, of e]
    have "s' = s" "p' = At_commit e e" using step At_copy by simp_all
    then show ?thesis using wf fit At_copy by simp
  next
    case (At_commit e bak)
    from ok At_commit have eb: "e = bak" and le: "unat bak + unat len \<le> unat (mpmc_out s)"
      by simp_all
    show ?thesis
    proof (cases "mpmc_real_out s = e")
      case True
      have "unat e + unat len < 2 ^ 64" using nw le eb chain by (simp add: mpmc_chain_def)
      then have u: "unat (e + len) = unat e + unat len" by (rule unat_add_nowrap)
      have s': "s' = s\<lparr>mpmc_real_out := e + len\<rparr>" "p' = At_notify"
        using step At_commit True by (simp_all add: compare_exchange_def)
      show ?thesis using wf fit u True At_commit eb
        by (simp add: s' mpmc_wf_def)
    next
      case False
      then have "s' = s" "p' = At_commit bak bak"
        using step At_commit by (simp_all add: compare_exchange_def)
      then show ?thesis using wf fit At_commit by simp
    qed
  next
    case At_notify
    then show ?thesis using assms by auto
  next
    case Returned
    then show ?thesis using assms by auto
  next
    case Faulted
    then show ?thesis using assms by auto
  qed
qed


lemma range_other [simp]:
  "get_range (Put_thread buf len p) = None" "put_range (Get_thread len p bytes) = None"
  by simp_all

lemma mpmc_step_tiled:
  assumes inv: "mpmc_inv c" and tiled: "mpmc_tiled c"
  shows "mpmc_tiled (mpmc_step c i)"
proof -
  obtain s ts where c: "c = (s, ts)" by (cases c)
  show ?thesis
  proof (cases "i < length ts")
    case False
    then show ?thesis using tiled c by simp
  next
    case True
    define t where "t = ts ! i"
    have tin: "t \<in> set ts" using True by (simp add: t_def)
    from inv c have chain: "mpmc_chain s"
      and all: "\<forall>t\<in>set ts. thread_len t \<le> mpmc_buf_size s \<and> thread_ok s t"
      and b: "unat (mpmc_in s) + sum_list (map unreserved ts) + unat (mpmc_buf_size s) < 2 ^ 64"
      by (simp_all add: mpmc_inv_def)
    from tiled c have wf: "mpmc_wf s" and fits: "\<forall>t\<in>set ts. thread_fit t"
      and tp: "tiles put_range ts (unat (mpmc_real_in s)) (unat (mpmc_in s))"
      and tg: "tiles get_range ts (unat (mpmc_real_out s)) (unat (mpmc_out s))"
      by (simp_all add: mpmc_tiled_def)
    have "unreserved t \<in> set (map unreserved ts)" using tin by simp
    then have ule: "unreserved t \<le> sum_list (map unreserved ts)"
      using member_le_sum_list[of "unreserved t" "map unreserved ts"] by simp
    then have nw: "unat (mpmc_in s) + unreserved t + unat (mpmc_buf_size s) < 2 ^ 64"
      using b by simp
    have fits': "\<forall>x\<in>set (ts[i := t']). thread_fit x" if "thread_fit t'" for t'
      using set_update_subset_insert[of ts i t'] fits that by auto
    have lohi: "unat (mpmc_real_in s) \<le> unat (mpmc_in s)" "unat (mpmc_real_out s) \<le> unat (mpmc_out s)"
      using chain by (simp_all add: mpmc_chain_def)
    show ?thesis
    proof (cases t)
      case (Put_thread buf len p)
      obtain s' p' where st: "put_step s buf len p = (s', p')" by (cases "put_step s buf len p")
      define t' where "t' = Put_thread buf len p'"
      have res: "mpmc_step c i = (s', ts[i := t'])"
        using True st c Put_thread by (simp add: t_def[symmetric] t'_def)
      have len: "len \<le> mpmc_buf_size s" and ok: "thread_ok s (Put_thread buf len p)"
        and fit: "thread_fit (Put_thread buf len p)"
        and nw': "unat (mpmc_in s) + unreserved (Put_thread buf len p) + unat (mpmc_buf_size s) < 2 ^ 64"
        using all fits tin nw Put_thread by auto
      note r = put_step_range[OF chain len ok nw' wf fit st]
      have g: "tiles get_range (ts[i := t']) (unat (mpmc_real_out s')) (unat (mpmc_out s'))"
        using r tiles_keep[OF tg True, of t'] Put_thread by (simp add: t'_def t_def[symmetric])
      have p: "tiles put_range (ts[i := t']) (unat (mpmc_real_in s')) (unat (mpmc_in s'))"
        using r tiles_keep[OF tp True, of t']
          tiles_reserve[OF tp True _ _ _ lohi(1), of t' "unat (mpmc_in s')"]
          tiles_commit[OF tp True, of "unat (mpmc_real_in s')" t']
          Put_thread
        by (auto simp: t'_def t_def[symmetric])
      show ?thesis using r g p fits'[of t'] by (simp add: res mpmc_tiled_def t'_def)
    next
      case (Get_thread len p bytes)
      obtain s' p' bytes' where st: "get_step s len p bytes = (s', p', bytes')"
        by (cases "get_step s len p bytes")
      define t' where "t' = Get_thread len p' bytes'"
      have res: "mpmc_step c i = (s', ts[i := t'])"
        using True st c Get_thread by (simp add: t_def[symmetric] t'_def)
      have len: "len \<le> mpmc_buf_size s" and ok: "thread_ok s (Get_thread len p bytes)"
        and fit: "thread_fit (Get_thread len p bytes)"
        and nw': "unat (mpmc_in s) + unat (mpmc_buf_size s) < 2 ^ 64"
        using all fits tin nw Get_thread by auto
      note r = get_step_range[OF chain len ok nw' wf fit st]
      have p: "tiles put_range (ts[i := t']) (unat (mpmc_real_in s')) (unat (mpmc_in s'))"
        using r tiles_keep[OF tp True, of t'] Get_thread by (simp add: t'_def t_def[symmetric])
      have g: "tiles get_range (ts[i := t']) (unat (mpmc_real_out s')) (unat (mpmc_out s'))"
        using r tiles_keep[OF tg True, of t']
          tiles_reserve[OF tg True _ _ _ lohi(2), of t' "unat (mpmc_out s')"]
          tiles_commit[OF tg True, of "unat (mpmc_real_out s')" t']
          Get_thread
        by (auto simp: t'_def t_def[symmetric])
      show ?thesis using r g p fits'[of t'] by (simp add: res mpmc_tiled_def t'_def)
    qed
  qed
qed

lemma mpmc_exec_tiled:
  "mpmc_inv c \<Longrightarrow> mpmc_tiled c \<Longrightarrow> mpmc_inv (mpmc_exec c sched) \<and> mpmc_tiled (mpmc_exec c sched)"
  by (induction sched arbitrary: c) (simp_all add: mpmc_step_inv mpmc_step_tiled)

lemma mpmc_tiled_start:
  assumes "mpmc_wf s0" "mpmc_in s0 = 0" "mpmc_real_in s0 = 0" "mpmc_out s0 = 0" "mpmc_real_out s0 = 0"
    and "\<forall>c\<in>set cs. call_fit c"
  shows "mpmc_tiled (s0, map start cs)"
proof -
  have "thread_fit (start c) = call_fit c \<and> put_range (start c) = None \<and> get_range (start c) = None" for c
    by (cases c) simp_all
  then show ?thesis using assms by (simp add: mpmc_tiled_def tiles_empty)
qed



subsection \<open>Steps never move a cursor back; a call that runs alone\<close>

lemma mpmc_step_grows:
  assumes inv: "mpmc_inv (s, ts)" and step: "mpmc_step (s, ts) i = (s', ts')"
  shows "grows s s'"
proof (cases "i < length ts")
  case False
  then show ?thesis using step by (auto simp: grows_def)
next
  case True
  obtain s1 t1 where st: "thread_step s (ts ! i) = (s1, t1)" by (cases "thread_step s (ts ! i)")
  have mem: "ts ! i \<in> set ts" using True by simp
  then have "unreserved (ts ! i) \<le> sum_list (map unreserved ts)"
    using member_le_sum_list[of "unreserved (ts ! i)" "map unreserved ts"] by simp
  then have nw: "unat (mpmc_in s) + unreserved (ts ! i) + unat (mpmc_buf_size s) < 2 ^ 64"
    using inv by (simp add: mpmc_inv_def)
  have chain: "mpmc_chain s" and len: "thread_len (ts ! i) \<le> mpmc_buf_size s"
    and ok: "thread_ok s (ts ! i)"
    using inv mem by (simp_all add: mpmc_inv_def)
  from thread_step_inv[OF chain len ok nw st] have "grows s s1" by simp
  then show ?thesis using step True st by simp
qed

lemma solo_put:
  assumes "mpmc_put s buf len = Some (Completed u, s')"
  shows "mpmc_exec (s, [Put_thread buf len At_wait]) [0, 0, 0, 0, 0, 0, 0] =
           (s', [Put_thread buf len Returned])"
  using assms
  by (auto simp: mpmc_put_cases compare_exchange_def not_less split: if_splits option.splits)

lemma solo_get:
  assumes "mpmc_get s len = Some (Completed bytes, s')"
  shows "mpmc_exec (s, [Get_thread len At_wait b0]) [0, 0, 0, 0, 0, 0, 0] =
           (s', [Get_thread len Returned bytes])"
  using assms
  by (auto simp: mpmc_get_cases compare_exchange_def not_less split: if_splits option.splits)


lemma power_of_two_8: "power_of_two 8"
  unfolding power_of_two_def by (rule bexI[of _ 3]) simp_all

subsection \<open>Some runs, evaluated\<close>

text \<open>
  Runs of a few calls on small buffers, one call after the other and interleaved, and
  the run of a call on a buffer of capacity 16 whose cursors have reached
  \<open>2^64 - 16\<close>.
\<close>

lemma run2:
  "spsc_run \<lparr>spsc_buffer = [0, 0, 0, 0], spsc_buf_size = 4, spsc_enable_cv = False, spsc_in = 0, spsc_out = 0\<rparr> [Write [1, 2, 3] 3, Read 2] = Some ([[1, 2]], \<lparr>spsc_buffer = [1, 2, 3, 0], spsc_buf_size = 4, spsc_enable_cv = False, spsc_in = 3, spsc_out = 2\<rparr>)"
  by (simp add: spsc_eval)

lemma mrun1:
  "mpmc_run \<lparr>mpmc_buffer = [0, 0, 0, 0], mpmc_buf_size = 4, mpmc_enable_cv = False, mpmc_in = 0, mpmc_real_in = 0, mpmc_out = 0, mpmc_real_out = 0\<rparr> [Write [1, 2, 3] 3] = Some ([], \<lparr>mpmc_buffer = [1, 2, 3, 0], mpmc_buf_size = 4, mpmc_enable_cv = False, mpmc_in = 3, mpmc_real_in = 3, mpmc_out = 0, mpmc_real_out = 0\<rparr>)"
  by (simp add: mpmc_eval)

lemma mrun2:
  "mpmc_run \<lparr>mpmc_buffer = [0, 0, 0, 0], mpmc_buf_size = 4, mpmc_enable_cv = False, mpmc_in = 0, mpmc_real_in = 0, mpmc_out = 0, mpmc_real_out = 0\<rparr> [Write [1, 2, 3] 3, Read 2] = Some ([[1, 2]], \<lparr>mpmc_buffer = [1, 2, 3, 0], mpmc_buf_size = 4, mpmc_enable_cv = False, mpmc_in = 3, mpmc_real_in = 3, mpmc_out = 2, mpmc_real_out = 2\<rparr>)"
  by (simp add: mpmc_eval)

lemma mpmc_wrapping_write:
  "mpmc_run \<lparr>mpmc_buffer = replicate 16 0, mpmc_buf_size = 16, mpmc_enable_cv = False, mpmc_in = 0, mpmc_real_in = 0, mpmc_out = 0, mpmc_real_out = 0\<rparr> (concat (replicate 1152921504606846975 [Write (replicate 16 0) 16, Read 16]) @ [Write (replicate 16 0) 16]) =
     Some (replicate 1152921504606846975 (replicate 16 0), \<lparr>mpmc_buffer = replicate 16 0, mpmc_buf_size = 16, mpmc_enable_cv = False, mpmc_in = 0, mpmc_real_in = 0, mpmc_out = 18446744073709551600, mpmc_real_out = 18446744073709551600\<rparr>)"
  using mpmc_aligned_write_16[of "18446744073709551600" "replicate 16 0" "replicate 16 0" "18446744073709551600" False]
  by (simp add: mpmc_run_append mpmc_pump_to_wrap)

lemmas exec_eval = compare_exchange_def mpmc_copy_in_def mpmc_copy_out_def memcpy_to_def
  memcpy_from_def Let_def

lemma exec_chain8:
  "mpmc_exec (\<lparr>mpmc_buffer = [0, 0, 0, 0, 0, 0, 0, 0], mpmc_buf_size = 8, mpmc_enable_cv = False, mpmc_in = 0, mpmc_real_in = 0, mpmc_out = 0, mpmc_real_out = 0\<rparr>, map start [Write [1, 2] 2, Write [3, 4, 5] 3, Read 2]) [0, 0, 0, 0, 0, 0, 1, 1, 1, 1, 2, 2, 2, 2] =
     (\<lparr>mpmc_buffer = [1, 2, 0, 0, 0, 0, 0, 0], mpmc_buf_size = 8, mpmc_enable_cv = False, mpmc_in = 5, mpmc_real_in = 2, mpmc_out = 2, mpmc_real_out = 0\<rparr>, [Put_thread [1, 2] 2 At_notify, Put_thread [3, 4, 5] 3 (At_copy 2), Get_thread 2 (At_copy 0) []])"
  by (simp add: exec_eval)

lemma exec_commit8:
  "mpmc_exec (\<lparr>mpmc_buffer = [0, 0, 0, 0, 0, 0, 0, 0], mpmc_buf_size = 8, mpmc_enable_cv = False, mpmc_in = 0, mpmc_real_in = 0, mpmc_out = 0, mpmc_real_out = 0\<rparr>, map start [Write [1, 2] 2, Write [3, 4, 5] 3]) [0, 0, 0, 0, 0, 1, 1, 1, 1, 1] =
     (\<lparr>mpmc_buffer = [1, 2, 3, 4, 5, 0, 0, 0], mpmc_buf_size = 8, mpmc_enable_cv = False, mpmc_in = 5, mpmc_real_in = 0, mpmc_out = 0, mpmc_real_out = 0\<rparr>, [Put_thread [1, 2] 2 (At_commit 0 0), Put_thread [3, 4, 5] 3 (At_commit 2 2)])"
  by (simp add: exec_eval)

lemma exec_empty_reservation:
  "mpmc_exec (\<lparr>mpmc_buffer = [0, 0, 0, 0, 0, 0, 0, 0, 0, 0, 0, 0, 0, 0, 0, 0], mpmc_buf_size = 16, mpmc_enable_cv = False, mpmc_in = 0, mpmc_real_in = 0, mpmc_out = 0, mpmc_real_out = 0\<rparr>, map start [Write [] 0, Write [1, 2, 3, 4, 5] 5]) [0, 0, 0, 0, 0, 1, 1, 1, 1, 1, 1, 1] =
     (\<lparr>mpmc_buffer = [1, 2, 3, 4, 5, 0, 0, 0, 0, 0, 0, 0, 0, 0, 0, 0], mpmc_buf_size = 16, mpmc_enable_cv = False, mpmc_in = 5, mpmc_real_in = 5, mpmc_out = 0, mpmc_real_out = 0\<rparr>, [Put_thread [] 0 (At_commit 0 0), Put_thread [1, 2, 3, 4, 5] 5 Returned])"
  by (simp add: exec_eval)

lemma exec_wrapping_commit:
  "mpmc_exec (\<lparr>mpmc_buffer = replicate 16 0, mpmc_buf_size = 16, mpmc_enable_cv = False, mpmc_in = 18446744073709551600, mpmc_real_in = 18446744073709551600, mpmc_out = 18446744073709551600, mpmc_real_out = 18446744073709551600\<rparr>, [Put_thread (replicate 16 0) 16 At_wait]) [0, 0, 0, 0, 0] =
     (\<lparr>mpmc_buffer = replicate 16 0, mpmc_buf_size = 16, mpmc_enable_cv = False, mpmc_in = 0, mpmc_real_in = 18446744073709551600, mpmc_out = 18446744073709551600, mpmc_real_out = 18446744073709551600\<rparr>, [Put_thread (replicate 16 0) 16 (At_commit 18446744073709551600 18446744073709551600)])"
  by (simp add: exec_eval hi_aligned hi_plus_16)

lemma exec_reserved8:
  "mpmc_exec (\<lparr>mpmc_buffer = [0, 0, 0, 0, 0, 0, 0, 0], mpmc_buf_size = 8, mpmc_enable_cv = False, mpmc_in = 0, mpmc_real_in = 0, mpmc_out = 0, mpmc_real_out = 0\<rparr>, [Put_thread [1, 2, 3, 4, 5] 5 At_wait]) [0, 0, 0, 0, 0] =
     (\<lparr>mpmc_buffer = [1, 2, 3, 4, 5, 0, 0, 0], mpmc_buf_size = 8, mpmc_enable_cv = False, mpmc_in = 5, mpmc_real_in = 0, mpmc_out = 0, mpmc_real_out = 0\<rparr>, [Put_thread [1, 2, 3, 4, 5] 5 (At_commit 0 0)])"
  by (simp add: exec_eval)

lemma zero_length_behind_reservation:
  "mpmc_write \<lparr>mpmc_buffer = [1, 2, 3, 4, 5, 0, 0, 0], mpmc_buf_size = 8, mpmc_enable_cv = False, mpmc_in = 5, mpmc_real_in = 0, mpmc_out = 0, mpmc_real_out = 0\<rparr> [] 0 = None"
  by (simp add: mpmc_eval)

lemma exec_commit4:
  "mpmc_exec (\<lparr>mpmc_buffer = [0, 0, 0, 0], mpmc_buf_size = 4, mpmc_enable_cv = False, mpmc_in = 0, mpmc_real_in = 0, mpmc_out = 0, mpmc_real_out = 0\<rparr>, map start [Write [1, 2] 2, Read 2]) [0, 0, 0, 0, 0] = (\<lparr>mpmc_buffer = [1, 2, 0, 0], mpmc_buf_size = 4, mpmc_enable_cv = False, mpmc_in = 2, mpmc_real_in = 0, mpmc_out = 0, mpmc_real_out = 0\<rparr>, [Put_thread [1, 2] 2 (At_commit 0 0), Get_thread 2 At_wait []])"
  by (simp add: exec_eval)

lemma step_commit4:
  "mpmc_step (\<lparr>mpmc_buffer = [1, 2, 0, 0], mpmc_buf_size = 4, mpmc_enable_cv = False, mpmc_in = 2, mpmc_real_in = 0, mpmc_out = 0, mpmc_real_out = 0\<rparr>, [Put_thread [1, 2] 2 (At_commit 0 0), Get_thread 2 At_wait []]) 0 = (\<lparr>mpmc_buffer = [1, 2, 0, 0], mpmc_buf_size = 4, mpmc_enable_cv = False, mpmc_in = 2, mpmc_real_in = 2, mpmc_out = 0, mpmc_real_out = 0\<rparr>, [Put_thread [1, 2] 2 At_notify, Get_thread 2 At_wait []])"
  by (simp add: compare_exchange_def)

section \<open>Construction\<close>

text \<open>
  Claim C4, as the specification states it: constructing either variant with a capacity
  that is zero or not a power of two fails fatally. The constructors never look at the
  capacity: with an allocator that succeeds, \<^verbatim>\<open>ringbuffer_spsc(3, false)\<close> and
  \<^verbatim>\<open>ringbuffer_mpmc(0, true)\<close> both return a buffer object.
\<close>

theorem ctor_accepts_any_capacity:
  "ringbuffer_spsc_ctor malloc_zeroed 3 False =
     Inr \<lparr>spsc_buffer = replicate 3 0, spsc_buf_size = 3, spsc_enable_cv = False,
          spsc_in = 0, spsc_out = 0\<rparr> \<and>
   ringbuffer_mpmc_ctor malloc_zeroed 0 True =
     Inr \<lparr>mpmc_buffer = [], mpmc_buf_size = 0, mpmc_enable_cv = True,
          mpmc_in = 0, mpmc_real_in = 0, mpmc_out = 0, mpmc_real_out = 0\<rparr> \<and>
   \<not> power_of_two 3 \<and> \<not> power_of_two 0"
  by (simp add: ringbuffer_spsc_ctor_def ringbuffer_mpmc_ctor_def malloc_zeroed_def
      not_power_of_two_3 not_power_of_two_0)

text \<open>
  Claim C4, amended: construction of either variant aborts, on \<^verbatim>\<open>assert(buffer_)\<close>,
  exactly when the allocation of \<open>capacity\<close> bytes fails; whenever the allocation
  succeeds, whatever the capacity, the constructor returns a buffer object that owns the
  allocated storage, has the given capacity and wait mode, and has every cursor at zero.
\<close>

theorem ctor_aborts_iff_allocation_fails:
  "(ringbuffer_spsc_ctor malloc cap cv = Inl Assert_buffer) = (malloc cap = None) \<and>
   (\<exists>s. ringbuffer_spsc_ctor malloc cap cv = Inr s \<and> Some (spsc_buffer s) = malloc cap \<and>
        spsc_buf_size s = cap \<and> spsc_enable_cv s = cv \<and> spsc_in s = 0 \<and> spsc_out s = 0)
     = (malloc cap \<noteq> None) \<and>
   (ringbuffer_mpmc_ctor malloc cap cv = Inl Assert_buffer) = (malloc cap = None) \<and>
   (\<exists>s. ringbuffer_mpmc_ctor malloc cap cv = Inr s \<and> Some (mpmc_buffer s) = malloc cap \<and>
        mpmc_buf_size s = cap \<and> mpmc_enable_cv s = cv \<and> mpmc_in s = 0 \<and>
        mpmc_real_in s = 0 \<and> mpmc_out s = 0 \<and> mpmc_real_out s = 0)
     = (malloc cap \<noteq> None)"
  by (cases "malloc cap") (auto simp: ringbuffer_spsc_ctor_def ringbuffer_mpmc_ctor_def)

section \<open>Lengths beyond the capacity\<close>

text \<open>
  Claim C8: for every state of an SPSC buffer and every \<open>len\<close> greater than the capacity,
  \<^verbatim>\<open>write(buf, len)\<close> stops at once: it prints the diagnostic
  \<^verbatim>\<open>write len ... > buf_size_ ...\<close> with \<open>len\<close> and the capacity and aborts on
  \<^verbatim>\<open>assert(false)\<close>, before any wait and any copy, so that the cursors and the
  storage are those of the state the call started in.
\<close>

theorem spsc_write_oversize_aborts:
  "spsc_buf_size s < len \<Longrightarrow>
     spsc_write s buf len = Some (Aborted (Write_len_gt_buf_size len (spsc_buf_size s)), s)"
  by (simp add: spsc_write_def)

theorem spsc_write_oversize_aborts_witness:
  "spsc_buf_size \<lparr>spsc_buffer = replicate 16 0, spsc_buf_size = 16, spsc_enable_cv = False,
        spsc_in = 3, spsc_out = 1\<rparr> < 17 \<and>
   spsc_write \<lparr>spsc_buffer = replicate 16 0, spsc_buf_size = 16, spsc_enable_cv = False,
        spsc_in = 3, spsc_out = 1\<rparr> (replicate 17 1) 17 =
     Some (Aborted (Write_len_gt_buf_size 17 16),
       \<lparr>spsc_buffer = replicate 16 0, spsc_buf_size = 16, spsc_enable_cv = False,
        spsc_in = 3, spsc_out = 1\<rparr>)"
  using spsc_write_oversize_aborts[of "\<lparr>spsc_buffer = replicate 16 0, spsc_buf_size = 16,
        spsc_enable_cv = False, spsc_in = 3, spsc_out = 1\<rparr>" 17 "replicate 17 1"]
  by simp

text \<open>
  Claim C3: a \<^verbatim>\<open>read\<close> of either variant, or a \<^verbatim>\<open>write\<close> on the MPMC buffer, with a
  length greater than the capacity should abort with a diagnostic. Only
  \<^verbatim>\<open>ringbuffer_spsc::write\<close> has that check. On a fresh buffer of capacity 16, in
  either wait mode, \<^verbatim>\<open>ringbuffer_spsc::read\<close>, \<^verbatim>\<open>ringbuffer_mpmc::write\<close> and
  \<^verbatim>\<open>ringbuffer_mpmc::read\<close> with length 17 never return and print nothing.
\<close>

theorem oversize_calls_never_return:
  "spsc_read \<lparr>spsc_buffer = replicate 16 0, spsc_buf_size = 16, spsc_enable_cv = False,
        spsc_in = 0, spsc_out = 0\<rparr> 17 = None \<and>
   spsc_read \<lparr>spsc_buffer = replicate 16 0, spsc_buf_size = 16, spsc_enable_cv = True,
        spsc_in = 0, spsc_out = 0\<rparr> 17 = None \<and>
   mpmc_write \<lparr>mpmc_buffer = replicate 16 0, mpmc_buf_size = 16, mpmc_enable_cv = False,
        mpmc_in = 0, mpmc_real_in = 0, mpmc_out = 0, mpmc_real_out = 0\<rparr> (replicate 17 1) 17 = None \<and>
   mpmc_write \<lparr>mpmc_buffer = replicate 16 0, mpmc_buf_size = 16, mpmc_enable_cv = True,
        mpmc_in = 0, mpmc_real_in = 0, mpmc_out = 0, mpmc_real_out = 0\<rparr> (replicate 17 1) 17 = None \<and>
   mpmc_read \<lparr>mpmc_buffer = replicate 16 0, mpmc_buf_size = 16, mpmc_enable_cv = False,
        mpmc_in = 0, mpmc_real_in = 0, mpmc_out = 0, mpmc_real_out = 0\<rparr> 17 = None \<and>
   mpmc_read \<lparr>mpmc_buffer = replicate 16 0, mpmc_buf_size = 16, mpmc_enable_cv = True,
        mpmc_in = 0, mpmc_real_in = 0, mpmc_out = 0, mpmc_real_out = 0\<rparr> 17 = None"
  by (simp add: spsc_read_def spsc_can_get_def wait_until_eq mpmc_write_def mpmc_read_def
      mpmc_put_waits mpmc_get_waits)

section \<open>The SPSC buffer\<close>

text \<open>
  Claim C5, as the specification states it: in every state with \<open>out \<le> in \<le> out +
  capacity\<close> and for every \<open>len \<le> capacity\<close>, \<^verbatim>\<open>write\<close> copies only where \<open>in + len \<le>
  out + capacity\<close>, and then advances \<open>in\<close> by \<open>len\<close>. The guard of the code compares
  \<open>in_ + size\<close> with \<open>buf_size_ + out_\<close> in \<^verbatim>\<open>uint64_t\<close>. With capacity 16,
  \<open>in = 2^64 - 1\<close> and \<open>out = 2^64 - 17\<close> the buffer is full; \<open>in_ + 1\<close> wraps around to 0,
  the guard holds, and a write of one byte stores it at offset 15, over the oldest byte
  that has not been read, and leaves \<open>in = 0\<close>.
\<close>

theorem spsc_write_without_room:
  "spsc_inv \<lparr>spsc_buffer = [0, 0, 0, 0, 0, 0, 0, 0, 0, 0, 0, 0, 0, 0, 0, 0], spsc_buf_size = 16, spsc_enable_cv = False, spsc_in = 18446744073709551615, spsc_out = 18446744073709551599\<rparr> \<and>
   (1::u64) \<le> spsc_buf_size \<lparr>spsc_buffer = [0, 0, 0, 0, 0, 0, 0, 0, 0, 0, 0, 0, 0, 0, 0, 0], spsc_buf_size = 16, spsc_enable_cv = False, spsc_in = 18446744073709551615, spsc_out = 18446744073709551599\<rparr> \<and>
   spsc_write \<lparr>spsc_buffer = [0, 0, 0, 0, 0, 0, 0, 0, 0, 0, 0, 0, 0, 0, 0, 0], spsc_buf_size = 16, spsc_enable_cv = False, spsc_in = 18446744073709551615, spsc_out = 18446744073709551599\<rparr> [9] 1 = Some (Completed (), \<lparr>spsc_buffer = [0, 0, 0, 0, 0, 0, 0, 0, 0, 0, 0, 0, 0, 0, 0, 9], spsc_buf_size = 16, spsc_enable_cv = False, spsc_in = 0, spsc_out = 18446744073709551599\<rparr>) \<and>
   \<not> unat (spsc_in \<lparr>spsc_buffer = [0, 0, 0, 0, 0, 0, 0, 0, 0, 0, 0, 0, 0, 0, 0, 0], spsc_buf_size = 16, spsc_enable_cv = False, spsc_in = 18446744073709551615, spsc_out = 18446744073709551599\<rparr>) + unat (1::u64) \<le> unat (spsc_out \<lparr>spsc_buffer = [0, 0, 0, 0, 0, 0, 0, 0, 0, 0, 0, 0, 0, 0, 0, 0], spsc_buf_size = 16, spsc_enable_cv = False, spsc_in = 18446744073709551615, spsc_out = 18446744073709551599\<rparr>) + unat (spsc_buf_size \<lparr>spsc_buffer = [0, 0, 0, 0, 0, 0, 0, 0, 0, 0, 0, 0, 0, 0, 0, 0], spsc_buf_size = 16, spsc_enable_cv = False, spsc_in = 18446744073709551615, spsc_out = 18446744073709551599\<rparr>) \<and>
   unat (spsc_in \<lparr>spsc_buffer = [0, 0, 0, 0, 0, 0, 0, 0, 0, 0, 0, 0, 0, 0, 0, 9], spsc_buf_size = 16, spsc_enable_cv = False, spsc_in = 0, spsc_out = 18446744073709551599\<rparr>) < unat (spsc_in \<lparr>spsc_buffer = [0, 0, 0, 0, 0, 0, 0, 0, 0, 0, 0, 0, 0, 0, 0, 0], spsc_buf_size = 16, spsc_enable_cv = False, spsc_in = 18446744073709551615, spsc_out = 18446744073709551599\<rparr>)"
  by (simp add: spsc_inv_def spsc_eval top_and_15 top_plus_1)


text \<open>
  Claim C5, amended: in every state of an SPSC buffer (storage of \<open>capacity\<close> bytes, the
  capacity a power of two) with \<open>out \<le> in \<le> out + capacity\<close> and \<open>in + capacity < 2^64\<close>,
  and for every \<open>len \<le> capacity\<close> with \<open>len\<close> bytes readable at \<open>buf\<close>: \<^verbatim>\<open>write\<close>
  completes exactly when \<open>in + len \<le> out + capacity\<close> and waits for ever otherwise; when
  it completes it has copied the \<open>len\<close> bytes to the offsets \<open>(in + i) mod capacity\<close>,
  which wraps to offset 0 at the end of the storage, and has advanced \<open>in\<close> by exactly
  \<open>len\<close>, leaving everything else. \<^verbatim>\<open>read\<close> completes exactly when \<open>out + len \<le> in\<close>; it
  returns the bytes at the offsets \<open>(out + i) mod capacity\<close> and advances \<open>out\<close> by
  exactly \<open>len\<close>.
\<close>

theorem spsc_write_read_copy:
  assumes "spsc_wf s" and "spsc_inv s"
    and "unat (spsc_in s) + unat (spsc_buf_size s) < 2 ^ 64"
    and "len \<le> spsc_buf_size s" and "unat len \<le> length buf"
  shows "spsc_write s buf len =
           (if unat (spsc_in s) + unat len \<le> unat (spsc_out s) + unat (spsc_buf_size s)
            then Some (Completed (),
                   s\<lparr>spsc_buffer := ring_write (spsc_buffer s) (unat (spsc_in s)) buf (unat len),
                     spsc_in := spsc_in s + len\<rparr>)
            else None) \<and>
         unat (spsc_in s + len) = unat (spsc_in s) + unat len \<and>
         spsc_read s len =
           (if unat (spsc_out s) + unat len \<le> unat (spsc_in s)
            then Some (Completed (ring_read (spsc_buffer s) (unat (spsc_out s)) (unat len)),
                   s\<lparr>spsc_out := spsc_out s + len\<rparr>)
            else None) \<and>
         unat (spsc_out s + len) = unat (spsc_out s) + unat len"
proof -
  have l: "unat len \<le> unat (spsc_buf_size s)" using assms(4) by (simp add: word_le_nat_alt)
  have o: "unat (spsc_out s) \<le> unat (spsc_in s)" using assms(2) by (simp add: spsc_inv_def)
  have a: "unat (spsc_in s) + unat len < 2 ^ 64" using l assms(3) by simp
  have b: "unat (spsc_buf_size s) + unat (spsc_out s) < 2 ^ 64" using o assms(3) by simp
  have c: "unat len + unat (spsc_out s) < 2 ^ 64" using l o assms(3) by simp
  have d: "unat (spsc_out s) + unat len < 2 ^ 64" using c by simp
  have g: "(spsc_in s + len \<le> spsc_buf_size s + spsc_out s) =
             (unat (spsc_in s) + unat len \<le> unat (spsc_out s) + unat (spsc_buf_size s))"
    using word_guard_nat[OF a b] by (simp add: ac_simps)
  have h: "(len + spsc_out s \<le> spsc_in s) = (unat (spsc_out s) + unat len \<le> unat (spsc_in s))"
    using unat_add_nowrap[OF c] by (simp add: word_le_nat_alt ac_simps)
  show ?thesis
    using spsc_write_eq[OF assms(1,4,5)] spsc_read_eq[OF assms(1,4)] g h
      unat_add_nowrap[OF a] unat_add_nowrap[OF d]
    by simp
qed


theorem spsc_write_read_copy_witness:
  "spsc_write \<lparr>spsc_buffer = [0, 0, 0, 0], spsc_buf_size = 4, spsc_enable_cv = True, spsc_in = 3, spsc_out = 1\<rparr> [7, 8] 2 = Some (Completed (), \<lparr>spsc_buffer = [8, 0, 0, 7], spsc_buf_size = 4, spsc_enable_cv = True, spsc_in = 5, spsc_out = 1\<rparr>) \<and>
   unat (spsc_in \<lparr>spsc_buffer = [0, 0, 0, 0], spsc_buf_size = 4, spsc_enable_cv = True, spsc_in = 3, spsc_out = 1\<rparr> + 2) = unat (spsc_in \<lparr>spsc_buffer = [0, 0, 0, 0], spsc_buf_size = 4, spsc_enable_cv = True, spsc_in = 3, spsc_out = 1\<rparr>) + unat (2::u64) \<and>
   spsc_read \<lparr>spsc_buffer = [0, 0, 0, 0], spsc_buf_size = 4, spsc_enable_cv = True, spsc_in = 3, spsc_out = 1\<rparr> 2 = Some (Completed [0, 0], \<lparr>spsc_buffer = [0, 0, 0, 0], spsc_buf_size = 4, spsc_enable_cv = True, spsc_in = 3, spsc_out = 3\<rparr>) \<and>
   unat (spsc_out \<lparr>spsc_buffer = [0, 0, 0, 0], spsc_buf_size = 4, spsc_enable_cv = True, spsc_in = 3, spsc_out = 1\<rparr> + 2) = unat (spsc_out \<lparr>spsc_buffer = [0, 0, 0, 0], spsc_buf_size = 4, spsc_enable_cv = True, spsc_in = 3, spsc_out = 1\<rparr>) + unat (2::u64)"
proof -
  have wf: "spsc_wf \<lparr>spsc_buffer = [0, 0, 0, 0], spsc_buf_size = 4, spsc_enable_cv = True, spsc_in = 3, spsc_out = 1\<rparr>"
    by (simp add: spsc_wf_def power_of_two_4)
  have i: "spsc_inv \<lparr>spsc_buffer = [0, 0, 0, 0], spsc_buf_size = 4, spsc_enable_cv = True, spsc_in = 3, spsc_out = 1\<rparr>"
    "unat (spsc_in \<lparr>spsc_buffer = [0, 0, 0, 0], spsc_buf_size = 4, spsc_enable_cv = True, spsc_in = 3, spsc_out = 1\<rparr>) + unat (spsc_buf_size \<lparr>spsc_buffer = [0, 0, 0, 0], spsc_buf_size = 4, spsc_enable_cv = True, spsc_in = 3, spsc_out = 1\<rparr>) < 2 ^ 64"
    by (simp_all add: spsc_inv_def)
  have l: "(2::u64) \<le> spsc_buf_size \<lparr>spsc_buffer = [0, 0, 0, 0], spsc_buf_size = 4, spsc_enable_cv = True, spsc_in = 3, spsc_out = 1\<rparr>" by simp
  have b: "unat (2::u64) \<le> length [7, 8 :: u8]" by simp
  have w: "ring_write [0, 0, 0, 0] 3 [7, 8] 2 = [8, 0, 0, 7]"
    by (simp add: ring_write_def numeral_2_eq_2)
  have r: "ring_read [0, 0, 0, 0] (Suc 0) 2 = [0, 0]"
    by (simp add: ring_read_def numeral_2_eq_2)
  from spsc_write_read_copy[OF wf i l b] show ?thesis
    by (simp add: w r)
qed


text \<open>
  Claim C7, as the specification states it: from \<open>in = out = 0\<close>, after every completed
  \<^verbatim>\<open>write\<close> and \<^verbatim>\<open>read\<close> of length at most the capacity, \<open>out \<le> in \<le> out + capacity\<close>,
  so that \<^verbatim>\<open>get_total_out()\<close> never exceeds \<^verbatim>\<open>get_total_in()\<close>. The cursors are
  \<^verbatim>\<open>uint64_t\<close> and wrap around: on a buffer of capacity 16, after 2^60 - 1 writes of 16
  bytes, each followed by a read of 16 bytes, both cursors are 2^64 - 16, and one more
  write of 16 bytes completes and leaves \<open>in = 0\<close> below \<open>out = 2^64 - 16\<close>.
\<close>

theorem spsc_cursors_wrap_around:
  "spsc_run \<lparr>spsc_buffer = replicate 16 0, spsc_buf_size = 16, spsc_enable_cv = False, spsc_in = 0, spsc_out = 0\<rparr> (concat (replicate 1152921504606846975 [Write (replicate 16 0) 16, Read 16]) @ [Write (replicate 16 0) 16]) =
     Some (replicate 1152921504606846975 (replicate 16 0), \<lparr>spsc_buffer = replicate 16 0, spsc_buf_size = 16, spsc_enable_cv = False, spsc_in = 0, spsc_out = 18446744073709551600\<rparr>) \<and>
   \<not> spsc_get_total_out \<lparr>spsc_buffer = replicate 16 0, spsc_buf_size = 16, spsc_enable_cv = False, spsc_in = 0, spsc_out = 18446744073709551600\<rparr> \<le> spsc_get_total_in \<lparr>spsc_buffer = replicate 16 0, spsc_buf_size = 16, spsc_enable_cv = False, spsc_in = 0, spsc_out = 18446744073709551600\<rparr>"
  by (simp add: spsc_wrapping_write spsc_get_total_in_def spsc_get_total_out_def)

text \<open>
  Claim C7, amended: from \<open>in = out = 0\<close>, after every sequence of completed calls of
  length at most the capacity that writes fewer than \<open>2^64 - capacity\<close> bytes in total,
  \<open>out \<le> in \<le> out + capacity\<close> holds, as numbers and in the arithmetic of the code:
  \<^verbatim>\<open>get_total_out()\<close> does not exceed \<^verbatim>\<open>get_total_in()\<close> and their difference does not
  exceed the capacity.
\<close>

theorem spsc_cursor_invariant:
  assumes "spsc_in s0 = 0" and "spsc_out s0 = 0"
    and "\<forall>c\<in>set cs. call_len c \<le> spsc_buf_size s0"
    and "bytes_written cs + unat (spsc_buf_size s0) < 2 ^ 64"
    and "spsc_run s0 cs = Some (outs, s)"
  shows "unat (spsc_out s) \<le> unat (spsc_in s) \<and>
         unat (spsc_in s) \<le> unat (spsc_out s) + unat (spsc_buf_size s) \<and>
         spsc_get_total_out s \<le> spsc_get_total_in s \<and>
         spsc_get_total_in s - spsc_get_total_out s \<le> spsc_buf_size s"
proof -
  have b: "unat (spsc_in s0) + bytes_written cs + unat (spsc_buf_size s0) < 2 ^ 64"
    using assms(1,4) by simp
  from spsc_run_inv[OF assms(5) spsc_inv_fresh[OF assms(1,2)] assms(3) b]
  have inv: "spsc_inv s" by simp
  then have le: "spsc_out s \<le> spsc_in s" by (simp add: spsc_inv_def word_le_nat_alt)
  then have "unat (spsc_in s - spsc_out s) = unat (spsc_in s) - unat (spsc_out s)"
    by (rule unat_sub)
  moreover have "unat (spsc_in s) - unat (spsc_out s) \<le> unat (spsc_buf_size s)"
    using inv unfolding spsc_inv_def by linarith
  ultimately have "spsc_in s - spsc_out s \<le> spsc_buf_size s"
    by (simp add: word_le_nat_alt)
  then show ?thesis using inv le
    by (simp add: spsc_inv_def spsc_get_total_in_def spsc_get_total_out_def)
qed

theorem spsc_cursor_invariant_witness:
  "spsc_run \<lparr>spsc_buffer = [0, 0, 0, 0], spsc_buf_size = 4, spsc_enable_cv = False, spsc_in = 0, spsc_out = 0\<rparr> [Write [1, 2, 3] 3, Read 2, Write [4, 5] 2] = Some ([[1, 2]], \<lparr>spsc_buffer = [5, 2, 3, 4], spsc_buf_size = 4, spsc_enable_cv = False, spsc_in = 5, spsc_out = 2\<rparr>) \<and>
   unat (spsc_out \<lparr>spsc_buffer = [5, 2, 3, 4], spsc_buf_size = 4, spsc_enable_cv = False, spsc_in = 5, spsc_out = 2\<rparr>) \<le> unat (spsc_in \<lparr>spsc_buffer = [5, 2, 3, 4], spsc_buf_size = 4, spsc_enable_cv = False, spsc_in = 5, spsc_out = 2\<rparr>) \<and>
   unat (spsc_in \<lparr>spsc_buffer = [5, 2, 3, 4], spsc_buf_size = 4, spsc_enable_cv = False, spsc_in = 5, spsc_out = 2\<rparr>) \<le> unat (spsc_out \<lparr>spsc_buffer = [5, 2, 3, 4], spsc_buf_size = 4, spsc_enable_cv = False, spsc_in = 5, spsc_out = 2\<rparr>) + unat (spsc_buf_size \<lparr>spsc_buffer = [5, 2, 3, 4], spsc_buf_size = 4, spsc_enable_cv = False, spsc_in = 5, spsc_out = 2\<rparr>) \<and>
   spsc_get_total_out \<lparr>spsc_buffer = [5, 2, 3, 4], spsc_buf_size = 4, spsc_enable_cv = False, spsc_in = 5, spsc_out = 2\<rparr> \<le> spsc_get_total_in \<lparr>spsc_buffer = [5, 2, 3, 4], spsc_buf_size = 4, spsc_enable_cv = False, spsc_in = 5, spsc_out = 2\<rparr> \<and>
   spsc_get_total_in \<lparr>spsc_buffer = [5, 2, 3, 4], spsc_buf_size = 4, spsc_enable_cv = False, spsc_in = 5, spsc_out = 2\<rparr> - spsc_get_total_out \<lparr>spsc_buffer = [5, 2, 3, 4], spsc_buf_size = 4, spsc_enable_cv = False, spsc_in = 5, spsc_out = 2\<rparr> \<le> spsc_buf_size \<lparr>spsc_buffer = [5, 2, 3, 4], spsc_buf_size = 4, spsc_enable_cv = False, spsc_in = 5, spsc_out = 2\<rparr>"
proof -
  have h: "spsc_in \<lparr>spsc_buffer = [0, 0, 0, 0], spsc_buf_size = 4, spsc_enable_cv = False, spsc_in = 0, spsc_out = 0\<rparr> = 0" "spsc_out \<lparr>spsc_buffer = [0, 0, 0, 0], spsc_buf_size = 4, spsc_enable_cv = False, spsc_in = 0, spsc_out = 0\<rparr> = 0"
    "\<forall>c\<in>set [Write [1, 2, 3] 3, Read 2, Write [4, 5] 2]. call_len c \<le> spsc_buf_size \<lparr>spsc_buffer = [0, 0, 0, 0], spsc_buf_size = 4, spsc_enable_cv = False, spsc_in = 0, spsc_out = 0\<rparr>"
    "bytes_written [Write [1, 2, 3] 3, Read 2, Write [4, 5] 2] + unat (spsc_buf_size \<lparr>spsc_buffer = [0, 0, 0, 0], spsc_buf_size = 4, spsc_enable_cv = False, spsc_in = 0, spsc_out = 0\<rparr>) < 2 ^ 64"
    by simp_all
  from spsc_cursor_invariant[OF h run4] run4 show ?thesis by simp
qed

text \<open>
  Claim C1, as the specification states it: whatever chunks of at most \<open>capacity\<close> bytes
  are written in order, reading the same sizes in order returns the same bytes. On a
  buffer of capacity 16, after 2^60 - 1 chunks of 16 zero bytes have been written and
  read, both cursors are 2^64 - 16; there \<open>16 + out\<close> wraps around to 0, so the next read
  of 16 bytes completes on the empty buffer, before the chunk of 16 bytes of value 1 that
  is written after it, and returns the zero bytes left in the storage.
\<close>

theorem spsc_round_trip_fails_after_wrap:
  "spsc_run \<lparr>spsc_buffer = replicate 16 0, spsc_buf_size = 16, spsc_enable_cv = False, spsc_in = 0, spsc_out = 0\<rparr> (concat (replicate 1152921504606846975 [Write (replicate 16 0) 16, Read 16]) @ [Read 16, Write (replicate 16 1) 16]) =
     Some (replicate 1152921504606846975 (replicate 16 0) @ [replicate 16 0], \<lparr>spsc_buffer = replicate 16 1, spsc_buf_size = 16, spsc_enable_cv = False, spsc_in = 0, spsc_out = 0\<rparr>) \<and>
   chunks_written (concat (replicate 1152921504606846975 [Write (replicate 16 0) 16, Read 16]) @ [Read 16, Write (replicate 16 1) 16]) =
     replicate 1152921504606846975 (replicate 16 0) @ [replicate 16 1] \<and>
   read_lens (concat (replicate 1152921504606846975 [Write (replicate 16 0) 16, Read 16]) @ [Read 16, Write (replicate 16 1) 16]) =
     map length (chunks_written (concat (replicate 1152921504606846975 [Write (replicate 16 0) 16, Read 16]) @ [Read 16, Write (replicate 16 1) 16])) \<and>
   replicate 1152921504606846975 (replicate 16 0) @ [replicate 16 0] \<noteq>
     replicate 1152921504606846975 (replicate 16 0) @ [replicate 16 (1::u8)]"
  by (simp add: spsc_early_read chunks_written_pump read_lens_pump)

text \<open>
  Claim C1, amended: on a fresh SPSC buffer whose capacity is a power of two, for every
  sequence of completed writes and reads, of lengths at most the capacity, in which the
  reads have the sizes of the written chunks in order and fewer than \<open>2^64 - capacity\<close>
  bytes are written in total, the chunks read are the chunks written. And for every
  sequence of chunks of at most \<open>capacity\<close> bytes and fewer than \<open>2^64 - capacity\<close> bytes
  in total, the calls do complete when each chunk is read before the next one is
  written, with these chunks as the result and both totals at the number of bytes. In
  particular (the witness), with capacity 16 in blocking mode, writing the 10 bytes
  \<open>ABCDEFGHIJ\<close> and reading 10 bytes returns \<open>ABCDEFGHIJ\<close> and leaves both totals at 10.
\<close>

theorem spsc_round_trip:
  assumes "spsc_wf s0" and "spsc_in s0 = 0" and "spsc_out s0 = 0"
  shows "((\<forall>c\<in>set cs. call_len c \<le> spsc_buf_size s0) \<and>
          bytes_written cs + unat (spsc_buf_size s0) < 2 ^ 64 \<and>
          spsc_run s0 cs = Some (outs, s) \<and>
          read_lens cs = map length (chunks_written cs) \<longrightarrow>
            outs = chunks_written cs) \<and>
         ((\<forall>c\<in>set chunks. length c \<le> unat (spsc_buf_size s0)) \<and>
          sum_list (map length chunks) + unat (spsc_buf_size s0) < 2 ^ 64 \<longrightarrow>
            (\<exists>s'. spsc_run s0 (alternate chunks) = Some (chunks, s') \<and>
                  unat (spsc_get_total_in s') = sum_list (map length chunks) \<and>
                  unat (spsc_get_total_out s') = sum_list (map length chunks)))"
proof -
  have trip: "outs = chunks_written cs"
    if len: "\<forall>c\<in>set cs. call_len c \<le> spsc_buf_size s0"
      and nw: "bytes_written cs + unat (spsc_buf_size s0) < 2 ^ 64"
      and run: "spsc_run s0 cs = Some (outs, s)"
      and rl: "read_lens cs = map length (chunks_written cs)"
    for cs outs s
  proof -
    have b: "unat (spsc_in s0) + bytes_written cs + unat (spsc_buf_size s0) < 2 ^ 64"
      using assms(2) nw by simp
    from spsc_run_fifo[OF run assms(1) spsc_inv_fresh[OF assms(2,3)] len b]
    have f: "spsc_contents s0 @ concat (chunks_written cs) = concat outs @ spsc_contents s"
      and l: "map length outs = read_lens cs" by simp_all
    have "spsc_contents s0 = []" using assms(2,3) by (simp add: spsc_contents_def)
    with f have c: "concat (chunks_written cs) = concat outs @ spsc_contents s" by simp
    have "length (concat (chunks_written cs)) = length (concat outs)"
      using l rl by (simp add: length_concat)
    with c have "spsc_contents s = []"
      by (metis append_self_conv length_append add_cancel_right_right length_0_conv)
    with c show ?thesis using concat_same_lengths[of outs "chunks_written cs"] l rl by simp
  qed
  have alt: "\<exists>s'. spsc_run s0 (alternate chunks) = Some (chunks, s') \<and>
                  unat (spsc_get_total_in s') = sum_list (map length chunks) \<and>
                  unat (spsc_get_total_out s') = sum_list (map length chunks)"
    if len: "\<forall>c\<in>set chunks. length c \<le> unat (spsc_buf_size s0)"
      and nw: "sum_list (map length chunks) + unat (spsc_buf_size s0) < 2 ^ 64"
  proof -
    from alternate_facts[OF len]
    have af: "chunks_written (alternate chunks) = chunks"
      "read_lens (alternate chunks) = map length chunks"
      "bytes_written (alternate chunks) = sum_list (map length chunks)"
      "\<forall>c\<in>set (alternate chunks). call_len c \<le> spsc_buf_size s0"
      by simp_all
    have e: "spsc_in s0 = spsc_out s0" using assms(2,3) by simp
    have n: "unat (spsc_in s0) + sum_list (map length chunks) + unat (spsc_buf_size s0) < 2 ^ 64"
      using assms(2) nw by simp
    from spsc_alternate_completes[OF assms(1) e len n] obtain outs s' where
      run: "spsc_run s0 (alternate chunks) = Some (outs, s')" by blast
    have nw': "bytes_written (alternate chunks) + unat (spsc_buf_size s0) < 2 ^ 64"
      using nw af(3) by simp
    have rl: "read_lens (alternate chunks) = map length (chunks_written (alternate chunks))"
      using af(1,2) by simp
    have o: "outs = chunks" using trip[OF af(4) nw' run rl] af(1) by simp
    have b: "unat (spsc_in s0) + bytes_written (alternate chunks) + unat (spsc_buf_size s0) < 2 ^ 64"
      using assms(2) nw' by simp
    from spsc_run_inv[OF run spsc_inv_fresh[OF assms(2,3)] af(4) b]
    have "unat (spsc_in s') = sum_list (map length chunks)"
      "unat (spsc_out s') = sum_list (map length chunks)"
      using assms(2,3) af(2,3) by simp_all
    then show ?thesis using run o
      by (auto simp: spsc_get_total_in_def spsc_get_total_out_def)
  qed
  show ?thesis using trip alt by blast
qed

theorem spsc_round_trip_witness:
  "spsc_run \<lparr>spsc_buffer = replicate 16 0, spsc_buf_size = 16, spsc_enable_cv = True, spsc_in = 0, spsc_out = 0\<rparr> [Write [65, 66, 67, 68, 69, 70, 71, 72, 73, 74] 10, Read 10] =
     Some ([[65, 66, 67, 68, 69, 70, 71, 72, 73, 74]], \<lparr>spsc_buffer = [65, 66, 67, 68, 69, 70, 71, 72, 73, 74] @ replicate 6 0, spsc_buf_size = 16, spsc_enable_cv = True, spsc_in = 10, spsc_out = 10\<rparr>) \<and>
   [[65, 66, 67, 68, 69, 70, 71, 72, 73, 74]] = chunks_written [Write [65, 66, 67, 68, 69, 70, 71, 72, 73, 74] 10, Read 10] \<and>
   alternate [[65, 66, 67, 68, 69, 70, 71, 72, 73, 74]] = [Write [65, 66, 67, 68, 69, 70, 71, 72, 73, 74] 10, Read 10] \<and>
   (\<exists>s'. spsc_run \<lparr>spsc_buffer = replicate 16 0, spsc_buf_size = 16, spsc_enable_cv = True, spsc_in = 0, spsc_out = 0\<rparr> (alternate [[65, 66, 67, 68, 69, 70, 71, 72, 73, 74]]) = Some ([[65, 66, 67, 68, 69, 70, 71, 72, 73, 74]], s') \<and>
         unat (spsc_get_total_in s') = 10 \<and> unat (spsc_get_total_out s') = 10) \<and>
   spsc_get_total_in \<lparr>spsc_buffer = [65, 66, 67, 68, 69, 70, 71, 72, 73, 74] @ replicate 6 0, spsc_buf_size = 16, spsc_enable_cv = True, spsc_in = 10, spsc_out = 10\<rparr> = 10 \<and>
   spsc_get_total_out \<lparr>spsc_buffer = [65, 66, 67, 68, 69, 70, 71, 72, 73, 74] @ replicate 6 0, spsc_buf_size = 16, spsc_enable_cv = True, spsc_in = 10, spsc_out = 10\<rparr> = 10"
proof -
  have h: "spsc_wf \<lparr>spsc_buffer = replicate 16 0, spsc_buf_size = 16, spsc_enable_cv = True, spsc_in = 0, spsc_out = 0\<rparr>"
    "spsc_in \<lparr>spsc_buffer = replicate 16 0, spsc_buf_size = 16, spsc_enable_cv = True, spsc_in = 0, spsc_out = 0\<rparr> = 0" "spsc_out \<lparr>spsc_buffer = replicate 16 0, spsc_buf_size = 16, spsc_enable_cv = True, spsc_in = 0, spsc_out = 0\<rparr> = 0"
    by (simp_all add: spsc_wf_def power_of_two_16)
  have a: "(\<forall>c\<in>set [Write [65, 66, 67, 68, 69, 70, 71, 72, 73, 74] 10, Read 10]. call_len c \<le> spsc_buf_size \<lparr>spsc_buffer = replicate 16 0, spsc_buf_size = 16, spsc_enable_cv = True, spsc_in = 0, spsc_out = 0\<rparr>) \<and>
     bytes_written [Write [65, 66, 67, 68, 69, 70, 71, 72, 73, 74] 10, Read 10] + unat (spsc_buf_size \<lparr>spsc_buffer = replicate 16 0, spsc_buf_size = 16, spsc_enable_cv = True, spsc_in = 0, spsc_out = 0\<rparr>) < 2 ^ 64 \<and>
     spsc_run \<lparr>spsc_buffer = replicate 16 0, spsc_buf_size = 16, spsc_enable_cv = True, spsc_in = 0, spsc_out = 0\<rparr> [Write [65, 66, 67, 68, 69, 70, 71, 72, 73, 74] 10, Read 10] = Some ([[65, 66, 67, 68, 69, 70, 71, 72, 73, 74]], \<lparr>spsc_buffer = [65, 66, 67, 68, 69, 70, 71, 72, 73, 74] @ replicate 6 0, spsc_buf_size = 16, spsc_enable_cv = True, spsc_in = 10, spsc_out = 10\<rparr>) \<and>
     read_lens [Write [65, 66, 67, 68, 69, 70, 71, 72, 73, 74] 10, Read 10] = map length (chunks_written [Write [65, 66, 67, 68, 69, 70, 71, 72, 73, 74] 10, Read 10])"
    using abc_run by simp
  have b: "(\<forall>c\<in>set [[65, 66, 67, 68, 69, 70, 71, 72, 73, 74]]. length c \<le> unat (spsc_buf_size \<lparr>spsc_buffer = replicate 16 0, spsc_buf_size = 16, spsc_enable_cv = True, spsc_in = 0, spsc_out = 0\<rparr>)) \<and>
     sum_list (map length [[65, 66, 67, 68, 69, 70, 71, 72, 73, 74]]) + unat (spsc_buf_size \<lparr>spsc_buffer = replicate 16 0, spsc_buf_size = 16, spsc_enable_cv = True, spsc_in = 0, spsc_out = 0\<rparr>) < 2 ^ 64"
    by simp
  note t = spsc_round_trip[OF h, of "[Write [65, 66, 67, 68, 69, 70, 71, 72, 73, 74] 10, Read 10]" "[[65, 66, 67, 68, 69, 70, 71, 72, 73, 74]]" "\<lparr>spsc_buffer = [65, 66, 67, 68, 69, 70, 71, 72, 73, 74] @ replicate 6 0, spsc_buf_size = 16, spsc_enable_cv = True, spsc_in = 10, spsc_out = 10\<rparr>" "[[65, 66, 67, 68, 69, 70, 71, 72, 73, 74]]"]
  note 1 = t[THEN conjunct1, THEN mp, OF a]
  note 2 = t[THEN conjunct2, THEN mp, OF b]
  have n: "sum_list (map length [[65, 66, 67, 68, 69, 70, 71, 72, 73, 74] :: u8 list]) = 10" by simp
  from 2 have 3: "\<exists>s'. spsc_run \<lparr>spsc_buffer = replicate 16 0, spsc_buf_size = 16, spsc_enable_cv = True, spsc_in = 0, spsc_out = 0\<rparr> (alternate [[65, 66, 67, 68, 69, 70, 71, 72, 73, 74]]) = Some ([[65, 66, 67, 68, 69, 70, 71, 72, 73, 74]], s') \<and>
         unat (spsc_get_total_in s') = 10 \<and> unat (spsc_get_total_out s') = 10"
    unfolding n .
  show ?thesis
  proof (intro conjI)
    show "spsc_run \<lparr>spsc_buffer = replicate 16 0, spsc_buf_size = 16, spsc_enable_cv = True, spsc_in = 0, spsc_out = 0\<rparr> [Write [65, 66, 67, 68, 69, 70, 71, 72, 73, 74] 10, Read 10] = Some ([[65, 66, 67, 68, 69, 70, 71, 72, 73, 74]], \<lparr>spsc_buffer = [65, 66, 67, 68, 69, 70, 71, 72, 73, 74] @ replicate 6 0, spsc_buf_size = 16, spsc_enable_cv = True, spsc_in = 10, spsc_out = 10\<rparr>)"
      by (rule abc_run)
    show "[[65, 66, 67, 68, 69, 70, 71, 72, 73, 74]] = chunks_written [Write [65, 66, 67, 68, 69, 70, 71, 72, 73, 74] 10, Read 10]" by (rule 1)
    show "alternate [[65, 66, 67, 68, 69, 70, 71, 72, 73, 74]] = [Write [65, 66, 67, 68, 69, 70, 71, 72, 73, 74] 10, Read 10]" by simp
    show "\<exists>s'. spsc_run \<lparr>spsc_buffer = replicate 16 0, spsc_buf_size = 16, spsc_enable_cv = True, spsc_in = 0, spsc_out = 0\<rparr> (alternate [[65, 66, 67, 68, 69, 70, 71, 72, 73, 74]]) = Some ([[65, 66, 67, 68, 69, 70, 71, 72, 73, 74]], s') \<and>
         unat (spsc_get_total_in s') = 10 \<and> unat (spsc_get_total_out s') = 10" by (rule 3)
    show "spsc_get_total_in \<lparr>spsc_buffer = [65, 66, 67, 68, 69, 70, 71, 72, 73, 74] @ replicate 6 0, spsc_buf_size = 16, spsc_enable_cv = True, spsc_in = 10, spsc_out = 10\<rparr> = 10" by (simp add: spsc_get_total_in_def)
    show "spsc_get_total_out \<lparr>spsc_buffer = [65, 66, 67, 68, 69, 70, 71, 72, 73, 74] @ replicate 6 0, spsc_buf_size = 16, spsc_enable_cv = True, spsc_in = 10, spsc_out = 10\<rparr> = 10" by (simp add: spsc_get_total_out_def)
  qed
qed

section \<open>The counters and calls of length 0\<close>

text \<open>
  Claim C9, as the specification states it: in both variants every completed write
  increases \<^verbatim>\<open>get_total_in()\<close> by its length, and no operation ever decreases a
  counter. The counters are \<^verbatim>\<open>uint64_t\<close>: on a buffer of capacity 16 whose cursors
  have reached \<open>2^64 - 16\<close> (after 2^60 - 1 writes and reads of 16 bytes), a write of 16
  bytes completes and leaves \<^verbatim>\<open>get_total_in()\<close> at 0, below its value before the
  call, in \<^verbatim>\<open>ringbuffer_spsc\<close> and in \<^verbatim>\<open>ringbuffer_mpmc\<close>.
\<close>

theorem counter_decreases_at_wrap:
  "spsc_run \<lparr>spsc_buffer = replicate 16 0, spsc_buf_size = 16, spsc_enable_cv = False, spsc_in = 0, spsc_out = 0\<rparr> (concat (replicate 1152921504606846975 [Write (replicate 16 0) 16, Read 16])) = Some (replicate 1152921504606846975 (replicate 16 0), \<lparr>spsc_buffer = replicate 16 0, spsc_buf_size = 16, spsc_enable_cv = False, spsc_in = 18446744073709551600, spsc_out = 18446744073709551600\<rparr>) \<and>
   spsc_run \<lparr>spsc_buffer = replicate 16 0, spsc_buf_size = 16, spsc_enable_cv = False, spsc_in = 0, spsc_out = 0\<rparr> (concat (replicate 1152921504606846975 [Write (replicate 16 0) 16, Read 16]) @ [Write (replicate 16 0) 16]) = Some (replicate 1152921504606846975 (replicate 16 0), \<lparr>spsc_buffer = replicate 16 0, spsc_buf_size = 16, spsc_enable_cv = False, spsc_in = 0, spsc_out = 18446744073709551600\<rparr>) \<and>
   spsc_get_total_in \<lparr>spsc_buffer = replicate 16 0, spsc_buf_size = 16, spsc_enable_cv = False, spsc_in = 0, spsc_out = 18446744073709551600\<rparr> < spsc_get_total_in \<lparr>spsc_buffer = replicate 16 0, spsc_buf_size = 16, spsc_enable_cv = False, spsc_in = 18446744073709551600, spsc_out = 18446744073709551600\<rparr> \<and>
   mpmc_run \<lparr>mpmc_buffer = replicate 16 0, mpmc_buf_size = 16, mpmc_enable_cv = False, mpmc_in = 0, mpmc_real_in = 0, mpmc_out = 0, mpmc_real_out = 0\<rparr> (concat (replicate 1152921504606846975 [Write (replicate 16 0) 16, Read 16])) = Some (replicate 1152921504606846975 (replicate 16 0), \<lparr>mpmc_buffer = replicate 16 0, mpmc_buf_size = 16, mpmc_enable_cv = False, mpmc_in = 18446744073709551600, mpmc_real_in = 18446744073709551600, mpmc_out = 18446744073709551600, mpmc_real_out = 18446744073709551600\<rparr>) \<and>
   mpmc_run \<lparr>mpmc_buffer = replicate 16 0, mpmc_buf_size = 16, mpmc_enable_cv = False, mpmc_in = 0, mpmc_real_in = 0, mpmc_out = 0, mpmc_real_out = 0\<rparr> (concat (replicate 1152921504606846975 [Write (replicate 16 0) 16, Read 16]) @ [Write (replicate 16 0) 16]) = Some (replicate 1152921504606846975 (replicate 16 0), \<lparr>mpmc_buffer = replicate 16 0, mpmc_buf_size = 16, mpmc_enable_cv = False, mpmc_in = 0, mpmc_real_in = 0, mpmc_out = 18446744073709551600, mpmc_real_out = 18446744073709551600\<rparr>) \<and>
   mpmc_get_total_in \<lparr>mpmc_buffer = replicate 16 0, mpmc_buf_size = 16, mpmc_enable_cv = False, mpmc_in = 0, mpmc_real_in = 0, mpmc_out = 18446744073709551600, mpmc_real_out = 18446744073709551600\<rparr> < mpmc_get_total_in \<lparr>mpmc_buffer = replicate 16 0, mpmc_buf_size = 16, mpmc_enable_cv = False, mpmc_in = 18446744073709551600, mpmc_real_in = 18446744073709551600, mpmc_out = 18446744073709551600, mpmc_real_out = 18446744073709551600\<rparr>"
  by (simp add: spsc_pump_to_wrap spsc_wrapping_write mpmc_pump_to_wrap mpmc_wrapping_write
      spsc_get_total_in_def mpmc_get_total_in_def)

text \<open>
  Claim C9, amended: as long as fewer than \<open>2^64 - capacity\<close> bytes are written in
  total, with calls of length at most the capacity on a buffer that starts with all
  cursors 0: in both variants a completed write increases \<^verbatim>\<open>get_total_in()\<close> by exactly
  its length and leaves \<^verbatim>\<open>get_total_out()\<close>, a completed read increases
  \<^verbatim>\<open>get_total_out()\<close> by exactly its length and leaves \<^verbatim>\<open>get_total_in()\<close>; and when
  calls on the MPMC buffer run interleaved, no step of any of them decreases a counter.
\<close>

theorem counters_advance_by_length:
  assumes "spsc_in s0 = 0" and "spsc_out s0 = 0"
    and "\<forall>c\<in>set (cs @ [c]). call_len c \<le> spsc_buf_size s0"
    and "bytes_written (cs @ [c]) + unat (spsc_buf_size s0) < 2 ^ 64"
    and "spsc_run s0 cs = Some (outs, s)"
    and "spsc_run s0 (cs @ [c]) = Some (outs', s')"
    and "mpmc_in m0 = 0" and "mpmc_real_in m0 = 0" and "mpmc_out m0 = 0" and "mpmc_real_out m0 = 0"
    and "\<forall>d\<in>set (ds @ [d]). call_len d \<le> mpmc_buf_size m0"
    and "bytes_written (ds @ [d]) + unat (mpmc_buf_size m0) < 2 ^ 64"
    and "mpmc_run m0 ds = Some (mouts, m)"
    and "mpmc_run m0 (ds @ [d]) = Some (mouts', m')"
    and "\<forall>e\<in>set es. call_len e \<le> mpmc_buf_size m0"
    and "bytes_written es + unat (mpmc_buf_size m0) < 2 ^ 64"
    and "mpmc_exec (m0, map start es) sched = (n, ts)"
    and "mpmc_step (n, ts) i = (n', ts')"
  shows "(case c of
            Write buf len \<Rightarrow>
              unat (spsc_get_total_in s') = unat (spsc_get_total_in s) + unat len \<and>
              spsc_get_total_out s' = spsc_get_total_out s
          | Read len \<Rightarrow>
              unat (spsc_get_total_out s') = unat (spsc_get_total_out s) + unat len \<and>
              spsc_get_total_in s' = spsc_get_total_in s) \<and>
         (case d of
            Write buf len \<Rightarrow>
              unat (mpmc_get_total_in m') = unat (mpmc_get_total_in m) + unat len \<and>
              mpmc_get_total_out m' = mpmc_get_total_out m
          | Read len \<Rightarrow>
              unat (mpmc_get_total_out m') = unat (mpmc_get_total_out m) + unat len \<and>
              mpmc_get_total_in m' = mpmc_get_total_in m) \<and>
         mpmc_get_total_in n \<le> mpmc_get_total_in n' \<and>
         mpmc_get_total_out n \<le> mpmc_get_total_out n'"
proof (intro conjI)
  have b: "unat (spsc_in s0) + bytes_written cs + unat (spsc_buf_size s0) < 2 ^ 64"
    using assms(1,4) by simp
  from spsc_run_inv[OF assms(5) spsc_inv_fresh[OF assms(1,2)] _ b] assms(3)
  have inv: "spsc_inv s" and bs: "spsc_buf_size s = spsc_buf_size s0"
    and i: "unat (spsc_in s) = bytes_written cs" using assms(1) by simp_all
  from assms(6) have step: "spsc_run s [c] = Some (drop (length outs) outs', s')"
    by (auto simp: spsc_run_append assms(5) split: option.splits)
  show "case c of
            Write buf len \<Rightarrow>
              unat (spsc_get_total_in s') = unat (spsc_get_total_in s) + unat len \<and>
              spsc_get_total_out s' = spsc_get_total_out s
          | Read len \<Rightarrow>
              unat (spsc_get_total_out s') = unat (spsc_get_total_out s) + unat len \<and>
              spsc_get_total_in s' = spsc_get_total_in s"
  proof (cases c)
    case (Write buf len)
    from spsc_run_Write[OF step[unfolded Write]] obtain u where
      w: "spsc_write s buf len = Some (Completed u, s')" by auto
    have nw: "unat (spsc_in s) + unat len < 2 ^ 64" using i assms(4) Write by simp
    from spsc_write_inv[OF w inv nw] show ?thesis
      by (simp add: Write spsc_get_total_in_def spsc_get_total_out_def)
  next
    case (Read len)
    from spsc_run_Read[OF step[unfolded Read]] obtain bytes where
      r: "spsc_read s len = Some (Completed bytes, s')" by auto
    have "len \<le> spsc_buf_size s0" using assms(3) Read by simp
    then have nw: "unat len + unat (spsc_out s) < 2 ^ 64"
      using inv i assms(4) by (simp add: spsc_inv_def word_le_nat_alt)
    from spsc_read_inv[OF r inv nw] show ?thesis
      by (simp add: Read spsc_get_total_in_def spsc_get_total_out_def)
  qed
next
  have b: "unat (mpmc_in m0) + bytes_written ds + unat (mpmc_buf_size m0) < 2 ^ 64"
    using assms(7,12) by simp
  note fr = mpmc_chain_fresh[OF assms(7-10)]
  from mpmc_run_inv[OF assms(13) fr[THEN conjunct1] fr[THEN conjunct2] _ b] assms(11)
  have inv: "mpmc_chain m" and q: "mpmc_quiescent m" and bs: "mpmc_buf_size m = mpmc_buf_size m0"
    and i: "unat (mpmc_real_in m) = bytes_written ds" using assms(8) by simp_all
  have i': "unat (mpmc_in m) = bytes_written ds" using i q by (simp add: mpmc_quiescent_def)
  from assms(14) have step: "mpmc_run m [d] = Some (drop (length mouts) mouts', m')"
    by (auto simp: mpmc_run_append assms(13) split: option.splits)
  show "case d of
            Write buf len \<Rightarrow>
              unat (mpmc_get_total_in m') = unat (mpmc_get_total_in m) + unat len \<and>
              mpmc_get_total_out m' = mpmc_get_total_out m
          | Read len \<Rightarrow>
              unat (mpmc_get_total_out m') = unat (mpmc_get_total_out m) + unat len \<and>
              mpmc_get_total_in m' = mpmc_get_total_in m"
  proof (cases d)
    case (Write buf len)
    from mpmc_run_Write[OF step[unfolded Write]] obtain u where
      w: "mpmc_write m buf len = Some (Completed u, m')" by auto
    have nw: "unat (mpmc_in m) + unat len < 2 ^ 64" using i' assms(12) Write by simp
    from mpmc_write_inv[OF w inv q nw] show ?thesis
      by (simp add: Write mpmc_get_total_in_def mpmc_get_total_out_def)
  next
    case (Read len)
    from mpmc_run_Read[OF step[unfolded Read]] obtain bytes where
      r: "mpmc_read m len = Some (Completed bytes, m')" by auto
    have "len \<le> mpmc_buf_size m0" using assms(11) Read by simp
    then have nw: "unat (mpmc_out m) + unat len < 2 ^ 64"
      using inv i' assms(12) by (simp add: mpmc_chain_def word_le_nat_alt)
    from mpmc_read_inv[OF r inv q nw] show ?thesis
      by (simp add: Read mpmc_get_total_in_def mpmc_get_total_out_def)
  qed
next
  have "mpmc_inv (mpmc_exec (m0, map start es) sched)"
    by (rule mpmc_exec_inv[OF mpmc_inv_start[OF assms(7-10,15,16)]])
  then have "grows n n'" using assms(17,18) by (simp add: mpmc_step_grows)
  then show "mpmc_get_total_in n \<le> mpmc_get_total_in n'"
    "mpmc_get_total_out n \<le> mpmc_get_total_out n'"
    by (simp_all add: grows_def mpmc_get_total_in_def mpmc_get_total_out_def word_le_nat_alt)
qed

theorem counters_advance_by_length_witness:
  "spsc_run \<lparr>spsc_buffer = [0, 0, 0, 0], spsc_buf_size = 4, spsc_enable_cv = False, spsc_in = 0, spsc_out = 0\<rparr> [Write [1, 2, 3] 3, Read 2] = Some ([[1, 2]], \<lparr>spsc_buffer = [1, 2, 3, 0], spsc_buf_size = 4, spsc_enable_cv = False, spsc_in = 3, spsc_out = 2\<rparr>) \<and>
   spsc_run \<lparr>spsc_buffer = [0, 0, 0, 0], spsc_buf_size = 4, spsc_enable_cv = False, spsc_in = 0, spsc_out = 0\<rparr> ([Write [1, 2, 3] 3, Read 2] @ [Write [4, 5] 2]) = Some ([[1, 2]], \<lparr>spsc_buffer = [5, 2, 3, 4], spsc_buf_size = 4, spsc_enable_cv = False, spsc_in = 5, spsc_out = 2\<rparr>) \<and>
   unat (spsc_get_total_in \<lparr>spsc_buffer = [5, 2, 3, 4], spsc_buf_size = 4, spsc_enable_cv = False, spsc_in = 5, spsc_out = 2\<rparr>) = unat (spsc_get_total_in \<lparr>spsc_buffer = [1, 2, 3, 0], spsc_buf_size = 4, spsc_enable_cv = False, spsc_in = 3, spsc_out = 2\<rparr>) + unat (2 :: u64) \<and>
   spsc_get_total_out \<lparr>spsc_buffer = [5, 2, 3, 4], spsc_buf_size = 4, spsc_enable_cv = False, spsc_in = 5, spsc_out = 2\<rparr> = spsc_get_total_out \<lparr>spsc_buffer = [1, 2, 3, 0], spsc_buf_size = 4, spsc_enable_cv = False, spsc_in = 3, spsc_out = 2\<rparr> \<and>
   mpmc_run \<lparr>mpmc_buffer = [0, 0, 0, 0], mpmc_buf_size = 4, mpmc_enable_cv = False, mpmc_in = 0, mpmc_real_in = 0, mpmc_out = 0, mpmc_real_out = 0\<rparr> [Write [1, 2, 3] 3] = Some ([], \<lparr>mpmc_buffer = [1, 2, 3, 0], mpmc_buf_size = 4, mpmc_enable_cv = False, mpmc_in = 3, mpmc_real_in = 3, mpmc_out = 0, mpmc_real_out = 0\<rparr>) \<and>
   mpmc_run \<lparr>mpmc_buffer = [0, 0, 0, 0], mpmc_buf_size = 4, mpmc_enable_cv = False, mpmc_in = 0, mpmc_real_in = 0, mpmc_out = 0, mpmc_real_out = 0\<rparr> ([Write [1, 2, 3] 3] @ [Read 2]) = Some ([[1, 2]], \<lparr>mpmc_buffer = [1, 2, 3, 0], mpmc_buf_size = 4, mpmc_enable_cv = False, mpmc_in = 3, mpmc_real_in = 3, mpmc_out = 2, mpmc_real_out = 2\<rparr>) \<and>
   unat (mpmc_get_total_out \<lparr>mpmc_buffer = [1, 2, 3, 0], mpmc_buf_size = 4, mpmc_enable_cv = False, mpmc_in = 3, mpmc_real_in = 3, mpmc_out = 2, mpmc_real_out = 2\<rparr>) = unat (mpmc_get_total_out \<lparr>mpmc_buffer = [1, 2, 3, 0], mpmc_buf_size = 4, mpmc_enable_cv = False, mpmc_in = 3, mpmc_real_in = 3, mpmc_out = 0, mpmc_real_out = 0\<rparr>) + unat (2 :: u64) \<and>
   mpmc_get_total_in \<lparr>mpmc_buffer = [1, 2, 3, 0], mpmc_buf_size = 4, mpmc_enable_cv = False, mpmc_in = 3, mpmc_real_in = 3, mpmc_out = 2, mpmc_real_out = 2\<rparr> = mpmc_get_total_in \<lparr>mpmc_buffer = [1, 2, 3, 0], mpmc_buf_size = 4, mpmc_enable_cv = False, mpmc_in = 3, mpmc_real_in = 3, mpmc_out = 0, mpmc_real_out = 0\<rparr> \<and>
   mpmc_exec (\<lparr>mpmc_buffer = [0, 0, 0, 0], mpmc_buf_size = 4, mpmc_enable_cv = False, mpmc_in = 0, mpmc_real_in = 0, mpmc_out = 0, mpmc_real_out = 0\<rparr>, map start [Write [1, 2] 2, Read 2]) [0, 0, 0, 0, 0] = (\<lparr>mpmc_buffer = [1, 2, 0, 0], mpmc_buf_size = 4, mpmc_enable_cv = False, mpmc_in = 2, mpmc_real_in = 0, mpmc_out = 0, mpmc_real_out = 0\<rparr>, [Put_thread [1, 2] 2 (At_commit 0 0), Get_thread 2 At_wait []]) \<and>
   mpmc_step (\<lparr>mpmc_buffer = [1, 2, 0, 0], mpmc_buf_size = 4, mpmc_enable_cv = False, mpmc_in = 2, mpmc_real_in = 0, mpmc_out = 0, mpmc_real_out = 0\<rparr>, [Put_thread [1, 2] 2 (At_commit 0 0), Get_thread 2 At_wait []]) 0 = (\<lparr>mpmc_buffer = [1, 2, 0, 0], mpmc_buf_size = 4, mpmc_enable_cv = False, mpmc_in = 2, mpmc_real_in = 2, mpmc_out = 0, mpmc_real_out = 0\<rparr>, [Put_thread [1, 2] 2 At_notify, Get_thread 2 At_wait []]) \<and>
   mpmc_get_total_in \<lparr>mpmc_buffer = [1, 2, 0, 0], mpmc_buf_size = 4, mpmc_enable_cv = False, mpmc_in = 2, mpmc_real_in = 0, mpmc_out = 0, mpmc_real_out = 0\<rparr> \<le> mpmc_get_total_in \<lparr>mpmc_buffer = [1, 2, 0, 0], mpmc_buf_size = 4, mpmc_enable_cv = False, mpmc_in = 2, mpmc_real_in = 2, mpmc_out = 0, mpmc_real_out = 0\<rparr> \<and>
   mpmc_get_total_out \<lparr>mpmc_buffer = [1, 2, 0, 0], mpmc_buf_size = 4, mpmc_enable_cv = False, mpmc_in = 2, mpmc_real_in = 0, mpmc_out = 0, mpmc_real_out = 0\<rparr> \<le> mpmc_get_total_out \<lparr>mpmc_buffer = [1, 2, 0, 0], mpmc_buf_size = 4, mpmc_enable_cv = False, mpmc_in = 2, mpmc_real_in = 2, mpmc_out = 0, mpmc_real_out = 0\<rparr>"
proof -
  have r3: "spsc_run \<lparr>spsc_buffer = [0, 0, 0, 0], spsc_buf_size = 4, spsc_enable_cv = False, spsc_in = 0, spsc_out = 0\<rparr> ([Write [1, 2, 3] 3, Read 2] @ [Write [4, 5] 2]) = Some ([[1, 2]], \<lparr>spsc_buffer = [5, 2, 3, 4], spsc_buf_size = 4, spsc_enable_cv = False, spsc_in = 5, spsc_out = 2\<rparr>)"
    using run4 by simp
  have m2: "mpmc_run \<lparr>mpmc_buffer = [0, 0, 0, 0], mpmc_buf_size = 4, mpmc_enable_cv = False, mpmc_in = 0, mpmc_real_in = 0, mpmc_out = 0, mpmc_real_out = 0\<rparr> ([Write [1, 2, 3] 3] @ [Read 2]) = Some ([[1, 2]], \<lparr>mpmc_buffer = [1, 2, 3, 0], mpmc_buf_size = 4, mpmc_enable_cv = False, mpmc_in = 3, mpmc_real_in = 3, mpmc_out = 2, mpmc_real_out = 2\<rparr>)"
    using mrun2 by simp
  have h: "spsc_in \<lparr>spsc_buffer = [0, 0, 0, 0], spsc_buf_size = 4, spsc_enable_cv = False, spsc_in = 0, spsc_out = 0\<rparr> = 0"
    "spsc_out \<lparr>spsc_buffer = [0, 0, 0, 0], spsc_buf_size = 4, spsc_enable_cv = False, spsc_in = 0, spsc_out = 0\<rparr> = 0"
    "\<forall>c\<in>set ([Write [1, 2, 3] 3, Read 2] @ [Write [4, 5] 2]). call_len c \<le> spsc_buf_size \<lparr>spsc_buffer = [0, 0, 0, 0], spsc_buf_size = 4, spsc_enable_cv = False, spsc_in = 0, spsc_out = 0\<rparr>"
    "bytes_written ([Write [1, 2, 3] 3, Read 2] @ [Write [4, 5] 2]) + unat (spsc_buf_size \<lparr>spsc_buffer = [0, 0, 0, 0], spsc_buf_size = 4, spsc_enable_cv = False, spsc_in = 0, spsc_out = 0\<rparr>) < 2 ^ 64"
    by simp_all
  have k: "mpmc_in \<lparr>mpmc_buffer = [0, 0, 0, 0], mpmc_buf_size = 4, mpmc_enable_cv = False, mpmc_in = 0, mpmc_real_in = 0, mpmc_out = 0, mpmc_real_out = 0\<rparr> = 0"
    "mpmc_real_in \<lparr>mpmc_buffer = [0, 0, 0, 0], mpmc_buf_size = 4, mpmc_enable_cv = False, mpmc_in = 0, mpmc_real_in = 0, mpmc_out = 0, mpmc_real_out = 0\<rparr> = 0"
    "mpmc_out \<lparr>mpmc_buffer = [0, 0, 0, 0], mpmc_buf_size = 4, mpmc_enable_cv = False, mpmc_in = 0, mpmc_real_in = 0, mpmc_out = 0, mpmc_real_out = 0\<rparr> = 0"
    "mpmc_real_out \<lparr>mpmc_buffer = [0, 0, 0, 0], mpmc_buf_size = 4, mpmc_enable_cv = False, mpmc_in = 0, mpmc_real_in = 0, mpmc_out = 0, mpmc_real_out = 0\<rparr> = 0"
    "\<forall>d\<in>set ([Write [1, 2, 3] 3] @ [Read 2]). call_len d \<le> mpmc_buf_size \<lparr>mpmc_buffer = [0, 0, 0, 0], mpmc_buf_size = 4, mpmc_enable_cv = False, mpmc_in = 0, mpmc_real_in = 0, mpmc_out = 0, mpmc_real_out = 0\<rparr>"
    "bytes_written ([Write [1, 2, 3] 3] @ [Read 2]) + unat (mpmc_buf_size \<lparr>mpmc_buffer = [0, 0, 0, 0], mpmc_buf_size = 4, mpmc_enable_cv = False, mpmc_in = 0, mpmc_real_in = 0, mpmc_out = 0, mpmc_real_out = 0\<rparr>) < 2 ^ 64"
    by simp_all
  have e: "\<forall>e\<in>set [Write [1, 2] 2, Read 2]. call_len e \<le> mpmc_buf_size \<lparr>mpmc_buffer = [0, 0, 0, 0], mpmc_buf_size = 4, mpmc_enable_cv = False, mpmc_in = 0, mpmc_real_in = 0, mpmc_out = 0, mpmc_real_out = 0\<rparr>"
    "bytes_written [Write [1, 2] 2, Read 2] + unat (mpmc_buf_size \<lparr>mpmc_buffer = [0, 0, 0, 0], mpmc_buf_size = 4, mpmc_enable_cv = False, mpmc_in = 0, mpmc_real_in = 0, mpmc_out = 0, mpmc_real_out = 0\<rparr>) < 2 ^ 64"
    by simp_all
  note t = counters_advance_by_length[OF h run2 r3 k mrun1 m2 e exec_commit4 step_commit4]
  have a: "unat (spsc_get_total_in \<lparr>spsc_buffer = [5, 2, 3, 4], spsc_buf_size = 4, spsc_enable_cv = False, spsc_in = 5, spsc_out = 2\<rparr>) = unat (spsc_get_total_in \<lparr>spsc_buffer = [1, 2, 3, 0], spsc_buf_size = 4, spsc_enable_cv = False, spsc_in = 3, spsc_out = 2\<rparr>) + unat (2 :: u64) \<and>
   spsc_get_total_out \<lparr>spsc_buffer = [5, 2, 3, 4], spsc_buf_size = 4, spsc_enable_cv = False, spsc_in = 5, spsc_out = 2\<rparr> = spsc_get_total_out \<lparr>spsc_buffer = [1, 2, 3, 0], spsc_buf_size = 4, spsc_enable_cv = False, spsc_in = 3, spsc_out = 2\<rparr> \<and>
   unat (mpmc_get_total_out \<lparr>mpmc_buffer = [1, 2, 3, 0], mpmc_buf_size = 4, mpmc_enable_cv = False, mpmc_in = 3, mpmc_real_in = 3, mpmc_out = 2, mpmc_real_out = 2\<rparr>) = unat (mpmc_get_total_out \<lparr>mpmc_buffer = [1, 2, 3, 0], mpmc_buf_size = 4, mpmc_enable_cv = False, mpmc_in = 3, mpmc_real_in = 3, mpmc_out = 0, mpmc_real_out = 0\<rparr>) + unat (2 :: u64) \<and>
   mpmc_get_total_in \<lparr>mpmc_buffer = [1, 2, 3, 0], mpmc_buf_size = 4, mpmc_enable_cv = False, mpmc_in = 3, mpmc_real_in = 3, mpmc_out = 2, mpmc_real_out = 2\<rparr> = mpmc_get_total_in \<lparr>mpmc_buffer = [1, 2, 3, 0], mpmc_buf_size = 4, mpmc_enable_cv = False, mpmc_in = 3, mpmc_real_in = 3, mpmc_out = 0, mpmc_real_out = 0\<rparr> \<and>
   mpmc_get_total_in \<lparr>mpmc_buffer = [1, 2, 0, 0], mpmc_buf_size = 4, mpmc_enable_cv = False, mpmc_in = 2, mpmc_real_in = 0, mpmc_out = 0, mpmc_real_out = 0\<rparr> \<le> mpmc_get_total_in \<lparr>mpmc_buffer = [1, 2, 0, 0], mpmc_buf_size = 4, mpmc_enable_cv = False, mpmc_in = 2, mpmc_real_in = 2, mpmc_out = 0, mpmc_real_out = 0\<rparr> \<and>
   mpmc_get_total_out \<lparr>mpmc_buffer = [1, 2, 0, 0], mpmc_buf_size = 4, mpmc_enable_cv = False, mpmc_in = 2, mpmc_real_in = 0, mpmc_out = 0, mpmc_real_out = 0\<rparr> \<le> mpmc_get_total_out \<lparr>mpmc_buffer = [1, 2, 0, 0], mpmc_buf_size = 4, mpmc_enable_cv = False, mpmc_in = 2, mpmc_real_in = 2, mpmc_out = 0, mpmc_real_out = 0\<rparr>"
    using t by simp
  from a run2 r3 mrun1 m2 exec_commit4 step_commit4 show ?thesis by blast
qed

text \<open>
  Claim C10, as the specification states it: in every state reachable by valid
  operations \<^verbatim>\<open>write(buf, 0)\<close> and \<^verbatim>\<open>read(buf, 0)\<close> complete without waiting. With
  capacity 16 and all cursors at \<open>2^64 - 16\<close>, the sum \<open>buf_size_ + out_\<close> of the guard of
  \<^verbatim>\<open>write\<close> wraps around to 0, which is below \<open>in_ + 0\<close>: a write of length 0 waits, in both
  variants. And on an MPMC buffer where a write of 5 bytes has reserved its range and not
  committed it, a write of length 0 waits in its commit loop for that commit.
\<close>

theorem zero_length_write_waits:
  "spsc_run \<lparr>spsc_buffer = replicate 16 0, spsc_buf_size = 16, spsc_enable_cv = False, spsc_in = 0, spsc_out = 0\<rparr> (concat (replicate 1152921504606846975 [Write (replicate 16 0) 16, Read 16])) = Some (replicate 1152921504606846975 (replicate 16 0), \<lparr>spsc_buffer = replicate 16 0, spsc_buf_size = 16, spsc_enable_cv = False, spsc_in = 18446744073709551600, spsc_out = 18446744073709551600\<rparr>) \<and>
   spsc_write \<lparr>spsc_buffer = replicate 16 0, spsc_buf_size = 16, spsc_enable_cv = False, spsc_in = 18446744073709551600, spsc_out = 18446744073709551600\<rparr> [] 0 = None \<and>
   mpmc_run \<lparr>mpmc_buffer = replicate 16 0, mpmc_buf_size = 16, mpmc_enable_cv = False, mpmc_in = 0, mpmc_real_in = 0, mpmc_out = 0, mpmc_real_out = 0\<rparr> (concat (replicate 1152921504606846975 [Write (replicate 16 0) 16, Read 16])) = Some (replicate 1152921504606846975 (replicate 16 0), \<lparr>mpmc_buffer = replicate 16 0, mpmc_buf_size = 16, mpmc_enable_cv = False, mpmc_in = 18446744073709551600, mpmc_real_in = 18446744073709551600, mpmc_out = 18446744073709551600, mpmc_real_out = 18446744073709551600\<rparr>) \<and>
   mpmc_write \<lparr>mpmc_buffer = replicate 16 0, mpmc_buf_size = 16, mpmc_enable_cv = False, mpmc_in = 18446744073709551600, mpmc_real_in = 18446744073709551600, mpmc_out = 18446744073709551600, mpmc_real_out = 18446744073709551600\<rparr> [] 0 = None \<and>
   mpmc_exec (\<lparr>mpmc_buffer = [0, 0, 0, 0, 0, 0, 0, 0], mpmc_buf_size = 8, mpmc_enable_cv = False, mpmc_in = 0, mpmc_real_in = 0, mpmc_out = 0, mpmc_real_out = 0\<rparr>, [Put_thread [1, 2, 3, 4, 5] 5 At_wait]) [0, 0, 0, 0, 0] =
     (\<lparr>mpmc_buffer = [1, 2, 3, 4, 5, 0, 0, 0], mpmc_buf_size = 8, mpmc_enable_cv = False, mpmc_in = 5, mpmc_real_in = 0, mpmc_out = 0, mpmc_real_out = 0\<rparr>, [Put_thread [1, 2, 3, 4, 5] 5 (At_commit 0 0)]) \<and>
   mpmc_write \<lparr>mpmc_buffer = [1, 2, 3, 4, 5, 0, 0, 0], mpmc_buf_size = 8, mpmc_enable_cv = False, mpmc_in = 5, mpmc_real_in = 0, mpmc_out = 0, mpmc_real_out = 0\<rparr> [] 0 = None"
proof (intro conjI)
  show "spsc_run \<lparr>spsc_buffer = replicate 16 0, spsc_buf_size = 16, spsc_enable_cv = False, spsc_in = 0, spsc_out = 0\<rparr> (concat (replicate 1152921504606846975 [Write (replicate 16 0) 16, Read 16])) = Some (replicate 1152921504606846975 (replicate 16 0), \<lparr>spsc_buffer = replicate 16 0, spsc_buf_size = 16, spsc_enable_cv = False, spsc_in = 18446744073709551600, spsc_out = 18446744073709551600\<rparr>)"
    by (rule spsc_pump_to_wrap)
  show "spsc_write \<lparr>spsc_buffer = replicate 16 0, spsc_buf_size = 16, spsc_enable_cv = False, spsc_in = 18446744073709551600, spsc_out = 18446744073709551600\<rparr> [] 0 = None"
    by (simp add: spsc_write_cases spsc_can_put_def)
  show "mpmc_run \<lparr>mpmc_buffer = replicate 16 0, mpmc_buf_size = 16, mpmc_enable_cv = False, mpmc_in = 0, mpmc_real_in = 0, mpmc_out = 0, mpmc_real_out = 0\<rparr> (concat (replicate 1152921504606846975 [Write (replicate 16 0) 16, Read 16])) = Some (replicate 1152921504606846975 (replicate 16 0), \<lparr>mpmc_buffer = replicate 16 0, mpmc_buf_size = 16, mpmc_enable_cv = False, mpmc_in = 18446744073709551600, mpmc_real_in = 18446744073709551600, mpmc_out = 18446744073709551600, mpmc_real_out = 18446744073709551600\<rparr>)"
    by (rule mpmc_pump_to_wrap)
  show "mpmc_write \<lparr>mpmc_buffer = replicate 16 0, mpmc_buf_size = 16, mpmc_enable_cv = False, mpmc_in = 18446744073709551600, mpmc_real_in = 18446744073709551600, mpmc_out = 18446744073709551600, mpmc_real_out = 18446744073709551600\<rparr> [] 0 = None"
    by (simp add: mpmc_write_def mpmc_put_waits)
  show "mpmc_exec (\<lparr>mpmc_buffer = [0, 0, 0, 0, 0, 0, 0, 0], mpmc_buf_size = 8, mpmc_enable_cv = False, mpmc_in = 0, mpmc_real_in = 0, mpmc_out = 0, mpmc_real_out = 0\<rparr>, [Put_thread [1, 2, 3, 4, 5] 5 At_wait]) [0, 0, 0, 0, 0] =
     (\<lparr>mpmc_buffer = [1, 2, 3, 4, 5, 0, 0, 0], mpmc_buf_size = 8, mpmc_enable_cv = False, mpmc_in = 5, mpmc_real_in = 0, mpmc_out = 0, mpmc_real_out = 0\<rparr>, [Put_thread [1, 2, 3, 4, 5] 5 (At_commit 0 0)])"
    by (rule exec_reserved8)
  show "mpmc_write \<lparr>mpmc_buffer = [1, 2, 3, 4, 5, 0, 0, 0], mpmc_buf_size = 8, mpmc_enable_cv = False, mpmc_in = 5, mpmc_real_in = 0, mpmc_out = 0, mpmc_real_out = 0\<rparr> [] 0 = None"
    by (rule zero_length_behind_reservation)
qed

text \<open>
  Claim C10, amended: in every state reached from the all-zero state by completed
  calls of length at most the capacity that write fewer than \<open>2^64 - capacity\<close> bytes in
  total (for the MPMC buffer: with no other call in progress), \<^verbatim>\<open>write(buf, 0)\<close> and
  \<^verbatim>\<open>read(buf, 0)\<close> complete without waiting and leave the cursors, the counters and the
  storage as they are.
\<close>

theorem zero_length_calls:
  assumes "spsc_wf s0" and "spsc_in s0 = 0" and "spsc_out s0 = 0"
    and "\<forall>c\<in>set cs. call_len c \<le> spsc_buf_size s0"
    and "bytes_written cs + unat (spsc_buf_size s0) < 2 ^ 64"
    and "spsc_run s0 cs = Some (outs, s)"
    and "mpmc_wf m0"
    and "mpmc_in m0 = 0" and "mpmc_real_in m0 = 0" and "mpmc_out m0 = 0" and "mpmc_real_out m0 = 0"
    and "\<forall>d\<in>set ds. call_len d \<le> mpmc_buf_size m0"
    and "bytes_written ds + unat (mpmc_buf_size m0) < 2 ^ 64"
    and "mpmc_run m0 ds = Some (mouts, m)"
  shows "spsc_write s buf 0 = Some (Completed (), s) \<and> spsc_read s 0 = Some (Completed [], s) \<and>
         mpmc_write m buf 0 = Some (Completed (), m) \<and> mpmc_read m 0 = Some (Completed [], m)"
proof -
  have b: "unat (spsc_in s0) + bytes_written cs + unat (spsc_buf_size s0) < 2 ^ 64"
    using assms(2,5) by simp
  from spsc_run_inv[OF assms(6) spsc_inv_fresh[OF assms(2,3)] assms(4) b]
  have inv: "spsc_inv s" and nw: "unat (spsc_in s) + unat (spsc_buf_size s) < 2 ^ 64"
    using assms(2,5) by simp_all
  note wf = spsc_run_wf[OF assms(6,1)]
  have b': "unat (mpmc_in m0) + bytes_written ds + unat (mpmc_buf_size m0) < 2 ^ 64"
    using assms(8,13) by simp
  note fr = mpmc_chain_fresh[OF assms(8-11)]
  from mpmc_run_inv[OF assms(14) fr[THEN conjunct1] fr[THEN conjunct2] assms(12) b']
  have minv: "mpmc_chain m" and q: "mpmc_quiescent m"
    and mbs: "mpmc_buf_size m = mpmc_buf_size m0"
    and mi: "unat (mpmc_real_in m) = bytes_written ds"
    using assms(9) by simp_all
  have "mpmc_in m = mpmc_real_in m" using q by (simp add: mpmc_quiescent_def)
  then have mnw: "unat (mpmc_in m) + unat (mpmc_buf_size m) < 2 ^ 64"
    using mi mbs assms(13) by simp
  note mwf = mpmc_run_wf[OF assms(14,7)]
  show ?thesis
    using spsc_zero_length(1)[OF wf inv nw, of buf] spsc_zero_length(2)[OF wf inv nw]
      mpmc_zero_length(1)[OF mwf minv q mnw, of buf] mpmc_zero_length(2)[OF mwf minv q mnw]
    by simp
qed

theorem zero_length_calls_witness:
  "spsc_run \<lparr>spsc_buffer = [0, 0, 0, 0], spsc_buf_size = 4, spsc_enable_cv = False, spsc_in = 0, spsc_out = 0\<rparr> [Write [1, 2, 3] 3, Read 2, Write [4, 5] 2] = Some ([[1, 2]], \<lparr>spsc_buffer = [5, 2, 3, 4], spsc_buf_size = 4, spsc_enable_cv = False, spsc_in = 5, spsc_out = 2\<rparr>) \<and>
   spsc_write \<lparr>spsc_buffer = [5, 2, 3, 4], spsc_buf_size = 4, spsc_enable_cv = False, spsc_in = 5, spsc_out = 2\<rparr> [] 0 = Some (Completed (), \<lparr>spsc_buffer = [5, 2, 3, 4], spsc_buf_size = 4, spsc_enable_cv = False, spsc_in = 5, spsc_out = 2\<rparr>) \<and>
   spsc_read \<lparr>spsc_buffer = [5, 2, 3, 4], spsc_buf_size = 4, spsc_enable_cv = False, spsc_in = 5, spsc_out = 2\<rparr> 0 = Some (Completed [], \<lparr>spsc_buffer = [5, 2, 3, 4], spsc_buf_size = 4, spsc_enable_cv = False, spsc_in = 5, spsc_out = 2\<rparr>) \<and>
   mpmc_run \<lparr>mpmc_buffer = [0, 0, 0, 0], mpmc_buf_size = 4, mpmc_enable_cv = False, mpmc_in = 0, mpmc_real_in = 0, mpmc_out = 0, mpmc_real_out = 0\<rparr> [Write [1, 2, 3] 3, Read 2, Write [4, 5] 2] = Some ([[1, 2]], \<lparr>mpmc_buffer = [5, 2, 3, 4], mpmc_buf_size = 4, mpmc_enable_cv = False, mpmc_in = 5, mpmc_real_in = 5, mpmc_out = 2, mpmc_real_out = 2\<rparr>) \<and>
   mpmc_write \<lparr>mpmc_buffer = [5, 2, 3, 4], mpmc_buf_size = 4, mpmc_enable_cv = False, mpmc_in = 5, mpmc_real_in = 5, mpmc_out = 2, mpmc_real_out = 2\<rparr> [] 0 = Some (Completed (), \<lparr>mpmc_buffer = [5, 2, 3, 4], mpmc_buf_size = 4, mpmc_enable_cv = False, mpmc_in = 5, mpmc_real_in = 5, mpmc_out = 2, mpmc_real_out = 2\<rparr>) \<and>
   mpmc_read \<lparr>mpmc_buffer = [5, 2, 3, 4], mpmc_buf_size = 4, mpmc_enable_cv = False, mpmc_in = 5, mpmc_real_in = 5, mpmc_out = 2, mpmc_real_out = 2\<rparr> 0 = Some (Completed [], \<lparr>mpmc_buffer = [5, 2, 3, 4], mpmc_buf_size = 4, mpmc_enable_cv = False, mpmc_in = 5, mpmc_real_in = 5, mpmc_out = 2, mpmc_real_out = 2\<rparr>)"
proof -
  have w: "spsc_wf \<lparr>spsc_buffer = [0, 0, 0, 0], spsc_buf_size = 4, spsc_enable_cv = False, spsc_in = 0, spsc_out = 0\<rparr>" "mpmc_wf \<lparr>mpmc_buffer = [0, 0, 0, 0], mpmc_buf_size = 4, mpmc_enable_cv = False, mpmc_in = 0, mpmc_real_in = 0, mpmc_out = 0, mpmc_real_out = 0\<rparr>"
    by (simp_all add: spsc_wf_def mpmc_wf_def power_of_two_4)
  have h: "spsc_in \<lparr>spsc_buffer = [0, 0, 0, 0], spsc_buf_size = 4, spsc_enable_cv = False, spsc_in = 0, spsc_out = 0\<rparr> = 0"
    "spsc_out \<lparr>spsc_buffer = [0, 0, 0, 0], spsc_buf_size = 4, spsc_enable_cv = False, spsc_in = 0, spsc_out = 0\<rparr> = 0"
    "\<forall>c\<in>set ([Write [1, 2, 3] 3, Read 2, Write [4, 5] 2]). call_len c \<le> spsc_buf_size \<lparr>spsc_buffer = [0, 0, 0, 0], spsc_buf_size = 4, spsc_enable_cv = False, spsc_in = 0, spsc_out = 0\<rparr>"
    "bytes_written ([Write [1, 2, 3] 3, Read 2, Write [4, 5] 2]) + unat (spsc_buf_size \<lparr>spsc_buffer = [0, 0, 0, 0], spsc_buf_size = 4, spsc_enable_cv = False, spsc_in = 0, spsc_out = 0\<rparr>) < 2 ^ 64"
    by simp_all
  have k: "mpmc_in \<lparr>mpmc_buffer = [0, 0, 0, 0], mpmc_buf_size = 4, mpmc_enable_cv = False, mpmc_in = 0, mpmc_real_in = 0, mpmc_out = 0, mpmc_real_out = 0\<rparr> = 0"
    "mpmc_real_in \<lparr>mpmc_buffer = [0, 0, 0, 0], mpmc_buf_size = 4, mpmc_enable_cv = False, mpmc_in = 0, mpmc_real_in = 0, mpmc_out = 0, mpmc_real_out = 0\<rparr> = 0"
    "mpmc_out \<lparr>mpmc_buffer = [0, 0, 0, 0], mpmc_buf_size = 4, mpmc_enable_cv = False, mpmc_in = 0, mpmc_real_in = 0, mpmc_out = 0, mpmc_real_out = 0\<rparr> = 0"
    "mpmc_real_out \<lparr>mpmc_buffer = [0, 0, 0, 0], mpmc_buf_size = 4, mpmc_enable_cv = False, mpmc_in = 0, mpmc_real_in = 0, mpmc_out = 0, mpmc_real_out = 0\<rparr> = 0"
    "\<forall>d\<in>set ([Write [1, 2, 3] 3, Read 2, Write [4, 5] 2]). call_len d \<le> mpmc_buf_size \<lparr>mpmc_buffer = [0, 0, 0, 0], mpmc_buf_size = 4, mpmc_enable_cv = False, mpmc_in = 0, mpmc_real_in = 0, mpmc_out = 0, mpmc_real_out = 0\<rparr>"
    "bytes_written ([Write [1, 2, 3] 3, Read 2, Write [4, 5] 2]) + unat (mpmc_buf_size \<lparr>mpmc_buffer = [0, 0, 0, 0], mpmc_buf_size = 4, mpmc_enable_cv = False, mpmc_in = 0, mpmc_real_in = 0, mpmc_out = 0, mpmc_real_out = 0\<rparr>) < 2 ^ 64"
    by simp_all
  from zero_length_calls[OF w(1) h run4 w(2) k mrun4, of "[]"] run4 mrun4
  show ?thesis by simp
qed

section \<open>The MPMC buffer\<close>

text \<open>
  Claim C2, as the specification states it: \<open>real_out_ \<le> out_ \<le> real_in_ \<le> in_ \<le>
  real_out_ + buf_size_\<close> holds initially and after every completed call of length at most
  the capacity. With capacity 16, after 2^60 - 1 writes and reads of 16 bytes all four
  cursors are \<open>2^64 - 16\<close>; one more write of 16 bytes completes and leaves \<open>in_\<close> and
  \<open>real_in_\<close> at 0, below \<open>out_ = 2^64 - 16\<close>.
\<close>

theorem mpmc_cursors_wrap_around:
  "mpmc_run \<lparr>mpmc_buffer = replicate 16 0, mpmc_buf_size = 16, mpmc_enable_cv = False, mpmc_in = 0, mpmc_real_in = 0, mpmc_out = 0, mpmc_real_out = 0\<rparr> (concat (replicate 1152921504606846975 [Write (replicate 16 0) 16, Read 16]) @ [Write (replicate 16 0) 16]) = Some (replicate 1152921504606846975 (replicate 16 0), \<lparr>mpmc_buffer = replicate 16 0, mpmc_buf_size = 16, mpmc_enable_cv = False, mpmc_in = 0, mpmc_real_in = 0, mpmc_out = 18446744073709551600, mpmc_real_out = 18446744073709551600\<rparr>) \<and>
   \<not> mpmc_out \<lparr>mpmc_buffer = replicate 16 0, mpmc_buf_size = 16, mpmc_enable_cv = False, mpmc_in = 0, mpmc_real_in = 0, mpmc_out = 18446744073709551600, mpmc_real_out = 18446744073709551600\<rparr> \<le> mpmc_real_in \<lparr>mpmc_buffer = replicate 16 0, mpmc_buf_size = 16, mpmc_enable_cv = False, mpmc_in = 0, mpmc_real_in = 0, mpmc_out = 18446744073709551600, mpmc_real_out = 18446744073709551600\<rparr>"
  by (simp add: mpmc_wrapping_write)

text \<open>
  Claim C2, amended: on an MPMC buffer that starts with all cursors 0, when calls of
  length at most the capacity that write fewer than \<open>2^64 - capacity\<close> bytes in total run
  interleaved in any order, after every step of any of them (the reservation, the copy
  and the commit of a write or of a read) \<open>real_out_ \<le> out_ \<le> real_in_ \<le> in_ \<le>
  real_out_ + buf_size_\<close> holds, as numbers and in the arithmetic of the code.
\<close>

theorem mpmc_cursor_chain:
  assumes "mpmc_in s0 = 0" and "mpmc_real_in s0 = 0" and "mpmc_out s0 = 0" and "mpmc_real_out s0 = 0"
    and "\<forall>c\<in>set cs. call_len c \<le> mpmc_buf_size s0"
    and "bytes_written cs + unat (mpmc_buf_size s0) < 2 ^ 64"
    and "mpmc_exec (s0, map start cs) sched = (s, ts)"
  shows "unat (mpmc_real_out s) \<le> unat (mpmc_out s) \<and>
         unat (mpmc_out s) \<le> unat (mpmc_real_in s) \<and>
         unat (mpmc_real_in s) \<le> unat (mpmc_in s) \<and>
         unat (mpmc_in s) \<le> unat (mpmc_real_out s) + unat (mpmc_buf_size s) \<and>
         mpmc_real_out s \<le> mpmc_out s \<and> mpmc_out s \<le> mpmc_real_in s \<and>
         mpmc_real_in s \<le> mpmc_in s \<and> mpmc_in s \<le> mpmc_real_out s + mpmc_buf_size s"
proof -
  have "mpmc_inv (mpmc_exec (s0, map start cs) sched)"
    by (rule mpmc_exec_inv[OF mpmc_inv_start[OF assms(1-6)]])
  then have chain: "mpmc_chain s"
    and b: "unat (mpmc_in s) + unat (mpmc_buf_size s) < 2 ^ 64"
    by (simp_all add: assms(7) mpmc_inv_def)
  have "unat (mpmc_real_out s) + unat (mpmc_buf_size s) < 2 ^ 64"
    using chain b by (simp add: mpmc_chain_def)
  moreover have "unat (mpmc_in s) \<le> unat (mpmc_real_out s) + unat (mpmc_buf_size s)"
    using chain by (simp add: mpmc_chain_def)
  ultimately have "mpmc_in s \<le> mpmc_real_out s + mpmc_buf_size s" by (rule le_plus_word)
  then show ?thesis using chain by (simp add: mpmc_chain_def word_le_nat_alt)
qed

theorem mpmc_cursor_chain_witness:
  "mpmc_exec (\<lparr>mpmc_buffer = [0, 0, 0, 0, 0, 0, 0, 0], mpmc_buf_size = 8, mpmc_enable_cv = False, mpmc_in = 0, mpmc_real_in = 0, mpmc_out = 0, mpmc_real_out = 0\<rparr>, map start [Write [1, 2] 2, Write [3, 4, 5] 3, Read 2]) [0, 0, 0, 0, 0, 0, 1, 1, 1, 1, 2, 2, 2, 2] = (\<lparr>mpmc_buffer = [1, 2, 0, 0, 0, 0, 0, 0], mpmc_buf_size = 8, mpmc_enable_cv = False, mpmc_in = 5, mpmc_real_in = 2, mpmc_out = 2, mpmc_real_out = 0\<rparr>, [Put_thread [1, 2] 2 At_notify, Put_thread [3, 4, 5] 3 (At_copy 2), Get_thread 2 (At_copy 0) []]) \<and>
   unat (mpmc_real_out \<lparr>mpmc_buffer = [1, 2, 0, 0, 0, 0, 0, 0], mpmc_buf_size = 8, mpmc_enable_cv = False, mpmc_in = 5, mpmc_real_in = 2, mpmc_out = 2, mpmc_real_out = 0\<rparr>) \<le> unat (mpmc_out \<lparr>mpmc_buffer = [1, 2, 0, 0, 0, 0, 0, 0], mpmc_buf_size = 8, mpmc_enable_cv = False, mpmc_in = 5, mpmc_real_in = 2, mpmc_out = 2, mpmc_real_out = 0\<rparr>) \<and>
   unat (mpmc_out \<lparr>mpmc_buffer = [1, 2, 0, 0, 0, 0, 0, 0], mpmc_buf_size = 8, mpmc_enable_cv = False, mpmc_in = 5, mpmc_real_in = 2, mpmc_out = 2, mpmc_real_out = 0\<rparr>) \<le> unat (mpmc_real_in \<lparr>mpmc_buffer = [1, 2, 0, 0, 0, 0, 0, 0], mpmc_buf_size = 8, mpmc_enable_cv = False, mpmc_in = 5, mpmc_real_in = 2, mpmc_out = 2, mpmc_real_out = 0\<rparr>) \<and>
   unat (mpmc_real_in \<lparr>mpmc_buffer = [1, 2, 0, 0, 0, 0, 0, 0], mpmc_buf_size = 8, mpmc_enable_cv = False, mpmc_in = 5, mpmc_real_in = 2, mpmc_out = 2, mpmc_real_out = 0\<rparr>) \<le> unat (mpmc_in \<lparr>mpmc_buffer = [1, 2, 0, 0, 0, 0, 0, 0], mpmc_buf_size = 8, mpmc_enable_cv = False, mpmc_in = 5, mpmc_real_in = 2, mpmc_out = 2, mpmc_real_out = 0\<rparr>) \<and>
   unat (mpmc_in \<lparr>mpmc_buffer = [1, 2, 0, 0, 0, 0, 0, 0], mpmc_buf_size = 8, mpmc_enable_cv = False, mpmc_in = 5, mpmc_real_in = 2, mpmc_out = 2, mpmc_real_out = 0\<rparr>) \<le> unat (mpmc_real_out \<lparr>mpmc_buffer = [1, 2, 0, 0, 0, 0, 0, 0], mpmc_buf_size = 8, mpmc_enable_cv = False, mpmc_in = 5, mpmc_real_in = 2, mpmc_out = 2, mpmc_real_out = 0\<rparr>) + unat (mpmc_buf_size \<lparr>mpmc_buffer = [1, 2, 0, 0, 0, 0, 0, 0], mpmc_buf_size = 8, mpmc_enable_cv = False, mpmc_in = 5, mpmc_real_in = 2, mpmc_out = 2, mpmc_real_out = 0\<rparr>) \<and>
   mpmc_real_out \<lparr>mpmc_buffer = [1, 2, 0, 0, 0, 0, 0, 0], mpmc_buf_size = 8, mpmc_enable_cv = False, mpmc_in = 5, mpmc_real_in = 2, mpmc_out = 2, mpmc_real_out = 0\<rparr> \<le> mpmc_out \<lparr>mpmc_buffer = [1, 2, 0, 0, 0, 0, 0, 0], mpmc_buf_size = 8, mpmc_enable_cv = False, mpmc_in = 5, mpmc_real_in = 2, mpmc_out = 2, mpmc_real_out = 0\<rparr> \<and>
   mpmc_out \<lparr>mpmc_buffer = [1, 2, 0, 0, 0, 0, 0, 0], mpmc_buf_size = 8, mpmc_enable_cv = False, mpmc_in = 5, mpmc_real_in = 2, mpmc_out = 2, mpmc_real_out = 0\<rparr> \<le> mpmc_real_in \<lparr>mpmc_buffer = [1, 2, 0, 0, 0, 0, 0, 0], mpmc_buf_size = 8, mpmc_enable_cv = False, mpmc_in = 5, mpmc_real_in = 2, mpmc_out = 2, mpmc_real_out = 0\<rparr> \<and>
   mpmc_real_in \<lparr>mpmc_buffer = [1, 2, 0, 0, 0, 0, 0, 0], mpmc_buf_size = 8, mpmc_enable_cv = False, mpmc_in = 5, mpmc_real_in = 2, mpmc_out = 2, mpmc_real_out = 0\<rparr> \<le> mpmc_in \<lparr>mpmc_buffer = [1, 2, 0, 0, 0, 0, 0, 0], mpmc_buf_size = 8, mpmc_enable_cv = False, mpmc_in = 5, mpmc_real_in = 2, mpmc_out = 2, mpmc_real_out = 0\<rparr> \<and>
   mpmc_in \<lparr>mpmc_buffer = [1, 2, 0, 0, 0, 0, 0, 0], mpmc_buf_size = 8, mpmc_enable_cv = False, mpmc_in = 5, mpmc_real_in = 2, mpmc_out = 2, mpmc_real_out = 0\<rparr> \<le> mpmc_real_out \<lparr>mpmc_buffer = [1, 2, 0, 0, 0, 0, 0, 0], mpmc_buf_size = 8, mpmc_enable_cv = False, mpmc_in = 5, mpmc_real_in = 2, mpmc_out = 2, mpmc_real_out = 0\<rparr> + mpmc_buf_size \<lparr>mpmc_buffer = [1, 2, 0, 0, 0, 0, 0, 0], mpmc_buf_size = 8, mpmc_enable_cv = False, mpmc_in = 5, mpmc_real_in = 2, mpmc_out = 2, mpmc_real_out = 0\<rparr>"
proof -
  have h: "mpmc_in \<lparr>mpmc_buffer = [0, 0, 0, 0, 0, 0, 0, 0], mpmc_buf_size = 8, mpmc_enable_cv = False, mpmc_in = 0, mpmc_real_in = 0, mpmc_out = 0, mpmc_real_out = 0\<rparr> = 0" "mpmc_real_in \<lparr>mpmc_buffer = [0, 0, 0, 0, 0, 0, 0, 0], mpmc_buf_size = 8, mpmc_enable_cv = False, mpmc_in = 0, mpmc_real_in = 0, mpmc_out = 0, mpmc_real_out = 0\<rparr> = 0" "mpmc_out \<lparr>mpmc_buffer = [0, 0, 0, 0, 0, 0, 0, 0], mpmc_buf_size = 8, mpmc_enable_cv = False, mpmc_in = 0, mpmc_real_in = 0, mpmc_out = 0, mpmc_real_out = 0\<rparr> = 0" "mpmc_real_out \<lparr>mpmc_buffer = [0, 0, 0, 0, 0, 0, 0, 0], mpmc_buf_size = 8, mpmc_enable_cv = False, mpmc_in = 0, mpmc_real_in = 0, mpmc_out = 0, mpmc_real_out = 0\<rparr> = 0"
    "\<forall>c\<in>set [Write [1, 2] 2, Write [3, 4, 5] 3, Read 2]. call_len c \<le> mpmc_buf_size \<lparr>mpmc_buffer = [0, 0, 0, 0, 0, 0, 0, 0], mpmc_buf_size = 8, mpmc_enable_cv = False, mpmc_in = 0, mpmc_real_in = 0, mpmc_out = 0, mpmc_real_out = 0\<rparr>"
    "bytes_written [Write [1, 2] 2, Write [3, 4, 5] 3, Read 2] + unat (mpmc_buf_size \<lparr>mpmc_buffer = [0, 0, 0, 0, 0, 0, 0, 0], mpmc_buf_size = 8, mpmc_enable_cv = False, mpmc_in = 0, mpmc_real_in = 0, mpmc_out = 0, mpmc_real_out = 0\<rparr>) < 2 ^ 64"
    by simp_all
  from mpmc_cursor_chain[OF h exec_chain8] exec_chain8 show ?thesis by simp
qed

text \<open>
  Claim C6, as the specification states it: after a reservation of \<open>[expected,
  expected + len)\<close> the commit loop advances \<open>real_in_\<close> to \<open>expected + len\<close>, never
  decreasing it, and the commits happen in the order of the reservations. Two runs
  where this fails. On a buffer of capacity 16, a write of length 0 reserves the empty
  range at 0; then a write of 5 bytes reserves \<open>[0, 5)\<close>, commits and returns, with
  \<open>real_in_ = 5\<close>; the first writer's loop waits for \<open>real_in_ = 0\<close>, so that each of its
  steps leaves everything as it is: it reserved first and never commits. And with all
  cursors at \<open>2^64 - 16\<close>, a write of 16 bytes reserves, copies and commits by moving
  \<open>real_in_\<close> from \<open>2^64 - 16\<close> to 0.
\<close>

theorem commit_loop_stuck_and_wrapping:
  "mpmc_exec (\<lparr>mpmc_buffer = [0, 0, 0, 0, 0, 0, 0, 0, 0, 0, 0, 0, 0, 0, 0, 0], mpmc_buf_size = 16, mpmc_enable_cv = False, mpmc_in = 0, mpmc_real_in = 0, mpmc_out = 0, mpmc_real_out = 0\<rparr>, map start [Write [] 0, Write [1, 2, 3, 4, 5] 5]) [0, 0, 0, 0, 0, 1, 1, 1, 1, 1, 1, 1] = (\<lparr>mpmc_buffer = [1, 2, 3, 4, 5, 0, 0, 0, 0, 0, 0, 0, 0, 0, 0, 0], mpmc_buf_size = 16, mpmc_enable_cv = False, mpmc_in = 5, mpmc_real_in = 5, mpmc_out = 0, mpmc_real_out = 0\<rparr>, [Put_thread [] 0 (At_commit 0 0), Put_thread [1, 2, 3, 4, 5] 5 Returned]) \<and>
   mpmc_step (\<lparr>mpmc_buffer = [1, 2, 3, 4, 5, 0, 0, 0, 0, 0, 0, 0, 0, 0, 0, 0], mpmc_buf_size = 16, mpmc_enable_cv = False, mpmc_in = 5, mpmc_real_in = 5, mpmc_out = 0, mpmc_real_out = 0\<rparr>, [Put_thread [] 0 (At_commit 0 0), Put_thread [1, 2, 3, 4, 5] 5 Returned]) 0 = (\<lparr>mpmc_buffer = [1, 2, 3, 4, 5, 0, 0, 0, 0, 0, 0, 0, 0, 0, 0, 0], mpmc_buf_size = 16, mpmc_enable_cv = False, mpmc_in = 5, mpmc_real_in = 5, mpmc_out = 0, mpmc_real_out = 0\<rparr>, [Put_thread [] 0 (At_commit 0 0), Put_thread [1, 2, 3, 4, 5] 5 Returned]) \<and>
   mpmc_step (\<lparr>mpmc_buffer = [1, 2, 3, 4, 5, 0, 0, 0, 0, 0, 0, 0, 0, 0, 0, 0], mpmc_buf_size = 16, mpmc_enable_cv = False, mpmc_in = 5, mpmc_real_in = 5, mpmc_out = 0, mpmc_real_out = 0\<rparr>, [Put_thread [] 0 (At_commit 0 0), Put_thread [1, 2, 3, 4, 5] 5 Returned]) 1 = (\<lparr>mpmc_buffer = [1, 2, 3, 4, 5, 0, 0, 0, 0, 0, 0, 0, 0, 0, 0, 0], mpmc_buf_size = 16, mpmc_enable_cv = False, mpmc_in = 5, mpmc_real_in = 5, mpmc_out = 0, mpmc_real_out = 0\<rparr>, [Put_thread [] 0 (At_commit 0 0), Put_thread [1, 2, 3, 4, 5] 5 Returned]) \<and>
   mpmc_run \<lparr>mpmc_buffer = replicate 16 0, mpmc_buf_size = 16, mpmc_enable_cv = False, mpmc_in = 0, mpmc_real_in = 0, mpmc_out = 0, mpmc_real_out = 0\<rparr> (concat (replicate 1152921504606846975 [Write (replicate 16 0) 16, Read 16])) = Some (replicate 1152921504606846975 (replicate 16 0), \<lparr>mpmc_buffer = replicate 16 0, mpmc_buf_size = 16, mpmc_enable_cv = False, mpmc_in = 18446744073709551600, mpmc_real_in = 18446744073709551600, mpmc_out = 18446744073709551600, mpmc_real_out = 18446744073709551600\<rparr>) \<and>
   mpmc_exec (\<lparr>mpmc_buffer = replicate 16 0, mpmc_buf_size = 16, mpmc_enable_cv = False, mpmc_in = 18446744073709551600, mpmc_real_in = 18446744073709551600, mpmc_out = 18446744073709551600, mpmc_real_out = 18446744073709551600\<rparr>, [Put_thread (replicate 16 0) 16 At_wait]) [0, 0, 0, 0, 0] =
     (\<lparr>mpmc_buffer = replicate 16 0, mpmc_buf_size = 16, mpmc_enable_cv = False, mpmc_in = 0, mpmc_real_in = 18446744073709551600, mpmc_out = 18446744073709551600, mpmc_real_out = 18446744073709551600\<rparr>, [Put_thread (replicate 16 0) 16 (At_commit 18446744073709551600 18446744073709551600)]) \<and>
   mpmc_step (\<lparr>mpmc_buffer = replicate 16 0, mpmc_buf_size = 16, mpmc_enable_cv = False, mpmc_in = 0, mpmc_real_in = 18446744073709551600, mpmc_out = 18446744073709551600, mpmc_real_out = 18446744073709551600\<rparr>, [Put_thread (replicate 16 0) 16 (At_commit 18446744073709551600 18446744073709551600)]) 0 =
     (\<lparr>mpmc_buffer = replicate 16 0, mpmc_buf_size = 16, mpmc_enable_cv = False, mpmc_in = 0, mpmc_real_in = 0, mpmc_out = 18446744073709551600, mpmc_real_out = 18446744073709551600\<rparr>, [Put_thread (replicate 16 0) 16 At_notify]) \<and>
   mpmc_real_in \<lparr>mpmc_buffer = replicate 16 0, mpmc_buf_size = 16, mpmc_enable_cv = False, mpmc_in = 0, mpmc_real_in = 0, mpmc_out = 18446744073709551600, mpmc_real_out = 18446744073709551600\<rparr> < mpmc_real_in \<lparr>mpmc_buffer = replicate 16 0, mpmc_buf_size = 16, mpmc_enable_cv = False, mpmc_in = 0, mpmc_real_in = 18446744073709551600, mpmc_out = 18446744073709551600, mpmc_real_out = 18446744073709551600\<rparr>"
proof (intro conjI)
  show "mpmc_exec (\<lparr>mpmc_buffer = [0, 0, 0, 0, 0, 0, 0, 0, 0, 0, 0, 0, 0, 0, 0, 0], mpmc_buf_size = 16, mpmc_enable_cv = False, mpmc_in = 0, mpmc_real_in = 0, mpmc_out = 0, mpmc_real_out = 0\<rparr>, map start [Write [] 0, Write [1, 2, 3, 4, 5] 5]) [0, 0, 0, 0, 0, 1, 1, 1, 1, 1, 1, 1] = (\<lparr>mpmc_buffer = [1, 2, 3, 4, 5, 0, 0, 0, 0, 0, 0, 0, 0, 0, 0, 0], mpmc_buf_size = 16, mpmc_enable_cv = False, mpmc_in = 5, mpmc_real_in = 5, mpmc_out = 0, mpmc_real_out = 0\<rparr>, [Put_thread [] 0 (At_commit 0 0), Put_thread [1, 2, 3, 4, 5] 5 Returned])"
    by (rule exec_empty_reservation)
  show "mpmc_step (\<lparr>mpmc_buffer = [1, 2, 3, 4, 5, 0, 0, 0, 0, 0, 0, 0, 0, 0, 0, 0], mpmc_buf_size = 16, mpmc_enable_cv = False, mpmc_in = 5, mpmc_real_in = 5, mpmc_out = 0, mpmc_real_out = 0\<rparr>, [Put_thread [] 0 (At_commit 0 0), Put_thread [1, 2, 3, 4, 5] 5 Returned]) 0 = (\<lparr>mpmc_buffer = [1, 2, 3, 4, 5, 0, 0, 0, 0, 0, 0, 0, 0, 0, 0, 0], mpmc_buf_size = 16, mpmc_enable_cv = False, mpmc_in = 5, mpmc_real_in = 5, mpmc_out = 0, mpmc_real_out = 0\<rparr>, [Put_thread [] 0 (At_commit 0 0), Put_thread [1, 2, 3, 4, 5] 5 Returned])"
    by (simp add: compare_exchange_def)
  show "mpmc_step (\<lparr>mpmc_buffer = [1, 2, 3, 4, 5, 0, 0, 0, 0, 0, 0, 0, 0, 0, 0, 0], mpmc_buf_size = 16, mpmc_enable_cv = False, mpmc_in = 5, mpmc_real_in = 5, mpmc_out = 0, mpmc_real_out = 0\<rparr>, [Put_thread [] 0 (At_commit 0 0), Put_thread [1, 2, 3, 4, 5] 5 Returned]) 1 = (\<lparr>mpmc_buffer = [1, 2, 3, 4, 5, 0, 0, 0, 0, 0, 0, 0, 0, 0, 0, 0], mpmc_buf_size = 16, mpmc_enable_cv = False, mpmc_in = 5, mpmc_real_in = 5, mpmc_out = 0, mpmc_real_out = 0\<rparr>, [Put_thread [] 0 (At_commit 0 0), Put_thread [1, 2, 3, 4, 5] 5 Returned])"
    by simp
  show "mpmc_run \<lparr>mpmc_buffer = replicate 16 0, mpmc_buf_size = 16, mpmc_enable_cv = False, mpmc_in = 0, mpmc_real_in = 0, mpmc_out = 0, mpmc_real_out = 0\<rparr> (concat (replicate 1152921504606846975 [Write (replicate 16 0) 16, Read 16])) = Some (replicate 1152921504606846975 (replicate 16 0), \<lparr>mpmc_buffer = replicate 16 0, mpmc_buf_size = 16, mpmc_enable_cv = False, mpmc_in = 18446744073709551600, mpmc_real_in = 18446744073709551600, mpmc_out = 18446744073709551600, mpmc_real_out = 18446744073709551600\<rparr>)"
    by (rule mpmc_pump_to_wrap)
  show "mpmc_exec (\<lparr>mpmc_buffer = replicate 16 0, mpmc_buf_size = 16, mpmc_enable_cv = False, mpmc_in = 18446744073709551600, mpmc_real_in = 18446744073709551600, mpmc_out = 18446744073709551600, mpmc_real_out = 18446744073709551600\<rparr>, [Put_thread (replicate 16 0) 16 At_wait]) [0, 0, 0, 0, 0] =
     (\<lparr>mpmc_buffer = replicate 16 0, mpmc_buf_size = 16, mpmc_enable_cv = False, mpmc_in = 0, mpmc_real_in = 18446744073709551600, mpmc_out = 18446744073709551600, mpmc_real_out = 18446744073709551600\<rparr>, [Put_thread (replicate 16 0) 16 (At_commit 18446744073709551600 18446744073709551600)])"
    by (rule exec_wrapping_commit)
  show "mpmc_step (\<lparr>mpmc_buffer = replicate 16 0, mpmc_buf_size = 16, mpmc_enable_cv = False, mpmc_in = 0, mpmc_real_in = 18446744073709551600, mpmc_out = 18446744073709551600, mpmc_real_out = 18446744073709551600\<rparr>, [Put_thread (replicate 16 0) 16 (At_commit 18446744073709551600 18446744073709551600)]) 0 =
     (\<lparr>mpmc_buffer = replicate 16 0, mpmc_buf_size = 16, mpmc_enable_cv = False, mpmc_in = 0, mpmc_real_in = 0, mpmc_out = 18446744073709551600, mpmc_real_out = 18446744073709551600\<rparr>, [Put_thread (replicate 16 0) 16 At_notify])"
    by (simp add: compare_exchange_def hi_plus_16)
  show "mpmc_real_in \<lparr>mpmc_buffer = replicate 16 0, mpmc_buf_size = 16, mpmc_enable_cv = False, mpmc_in = 0, mpmc_real_in = 0, mpmc_out = 18446744073709551600, mpmc_real_out = 18446744073709551600\<rparr> < mpmc_real_in \<lparr>mpmc_buffer = replicate 16 0, mpmc_buf_size = 16, mpmc_enable_cv = False, mpmc_in = 0, mpmc_real_in = 18446744073709551600, mpmc_out = 18446744073709551600, mpmc_real_out = 18446744073709551600\<rparr>"
    by simp
qed

text \<open>
  Claim C6, amended: on an MPMC buffer whose capacity is a power of two and whose
  cursors start at 0, when calls of positive length at most the capacity that write
  fewer than \<open>2^64 - capacity\<close> bytes in total run interleaved in any order, at every
  moment the ranges reserved and not yet committed by the writers are not empty, do not
  overlap and cover \<open>[real_in_, in_)\<close> without a gap, and likewise those of the readers
  cover \<open>[real_out_, out_)\<close>. A step of the commit loop of a writer that reserved
  \<open>[expected, expected + len)\<close> changes nothing unless \<open>real_in_ = expected\<close>, where it
  moves \<open>real_in_\<close> forward by \<open>len\<close> to \<open>expected + len\<close>, and every other reserved range
  then starts at or after \<open>expected + len\<close>: commits happen in the order of the
  reservations and \<open>real_in_\<close> never decreases. The commit of \<open>real_out_\<close> by a reader is
  the same.
\<close>

theorem commit_in_reservation_order:
  assumes "mpmc_wf s0"
    and "mpmc_in s0 = 0" and "mpmc_real_in s0 = 0" and "mpmc_out s0 = 0" and "mpmc_real_out s0 = 0"
    and "\<forall>c\<in>set cs. call_fit c \<and> call_len c \<le> mpmc_buf_size s0"
    and "bytes_written cs + unat (mpmc_buf_size s0) < 2 ^ 64"
    and "mpmc_exec (s0, map start cs) sched = (s, ts)"
  shows "tiles put_range ts (unat (mpmc_real_in s)) (unat (mpmc_in s)) \<and>
         tiles get_range ts (unat (mpmc_real_out s)) (unat (mpmc_out s)) \<and>
         (\<forall>i<length ts. \<forall>buf len e bak. ts ! i = Put_thread buf len (At_commit e bak) \<longrightarrow>
            (if mpmc_real_in s = e
             then mpmc_step (s, ts) i =
                    (s\<lparr>mpmc_real_in := e + len\<rparr>, ts[i := Put_thread buf len At_notify]) \<and>
                  unat (e + len) = unat (mpmc_real_in s) + unat len \<and>
                  (\<forall>j<length ts. \<forall>c d. j \<noteq> i \<and> put_range (ts ! j) = Some (c, d) \<longrightarrow>
                      unat (e + len) \<le> c)
             else mpmc_step (s, ts) i = (s, ts))) \<and>
         (\<forall>i<length ts. \<forall>len e bak bytes. ts ! i = Get_thread len (At_commit e bak) bytes \<longrightarrow>
            (if mpmc_real_out s = e
             then mpmc_step (s, ts) i =
                    (s\<lparr>mpmc_real_out := e + len\<rparr>, ts[i := Get_thread len At_notify bytes]) \<and>
                  unat (e + len) = unat (mpmc_real_out s) + unat len \<and>
                  (\<forall>j<length ts. \<forall>c d. j \<noteq> i \<and> get_range (ts ! j) = Some (c, d) \<longrightarrow>
                      unat (e + len) \<le> c)
             else mpmc_step (s, ts) i = (s, ts)))"
proof -
  have i0: "mpmc_inv (s0, map start cs)"
    using assms(6) by (intro mpmc_inv_start[OF assms(2-5) _ assms(7)]) simp
  have t0: "mpmc_tiled (s0, map start cs)"
    using assms(6) by (intro mpmc_tiled_start[OF assms(1-5)]) simp
  from mpmc_exec_tiled[OF i0 t0, of sched] have inv: "mpmc_inv (s, ts)" and tiled: "mpmc_tiled (s, ts)"
    by (simp_all add: assms(8))
  from inv have chain: "mpmc_chain s"
    and all: "\<forall>t\<in>set ts. thread_len t \<le> mpmc_buf_size s \<and> thread_ok s t"
    and b: "unat (mpmc_in s) + unat (mpmc_buf_size s) < 2 ^ 64"
    by (simp_all add: mpmc_inv_def)
  from tiled have tp: "tiles put_range ts (unat (mpmc_real_in s)) (unat (mpmc_in s))"
    and tg: "tiles get_range ts (unat (mpmc_real_out s)) (unat (mpmc_out s))"
    by (simp_all add: mpmc_tiled_def)
  have put: "if mpmc_real_in s = e
             then mpmc_step (s, ts) i =
                    (s\<lparr>mpmc_real_in := e + len\<rparr>, ts[i := Put_thread buf len At_notify]) \<and>
                  unat (e + len) = unat (mpmc_real_in s) + unat len \<and>
                  (\<forall>j<length ts. \<forall>c d. j \<noteq> i \<and> put_range (ts ! j) = Some (c, d) \<longrightarrow>
                      unat (e + len) \<le> c)
             else mpmc_step (s, ts) i = (s, ts)"
    if i: "i < length ts" and t: "ts ! i = Put_thread buf len (At_commit e bak)" for i buf len e bak
  proof -
    have "ts ! i \<in> set ts" using i by simp
    then have "thread_ok s (Put_thread buf len (At_commit e bak))" using all t by metis
    then have eb: "e = bak" and le: "unat bak + unat len \<le> unat (mpmc_in s)" by simp_all
    show ?thesis
    proof (cases "mpmc_real_in s = e")
      case True
      have "unat e + unat len < 2 ^ 64" using le eb b by simp
      then have u: "unat (e + len) = unat (mpmc_real_in s) + unat len"
        using True unat_add_nowrap[of e len] by simp
      have r: "put_range (ts ! i) = Some (unat (mpmc_real_in s), unat (e + len))"
        using t eb True u by simp
      have "unat (e + len) \<le> c" if "j < length ts" "j \<noteq> i" "put_range (ts ! j) = Some (c, d)" for j c d
        using tiles_first[OF tp i r that] .
      then show ?thesis using True i t u by (simp add: compare_exchange_def)
    next
      case False
      have "ts[i := Put_thread buf len (At_commit bak bak)] = ts"
        using t eb list_update_id[of ts i] by simp
      then show ?thesis using False i t by (simp add: compare_exchange_def)
    qed
  qed
  have get: "if mpmc_real_out s = e
             then mpmc_step (s, ts) i =
                    (s\<lparr>mpmc_real_out := e + len\<rparr>, ts[i := Get_thread len At_notify bytes]) \<and>
                  unat (e + len) = unat (mpmc_real_out s) + unat len \<and>
                  (\<forall>j<length ts. \<forall>c d. j \<noteq> i \<and> get_range (ts ! j) = Some (c, d) \<longrightarrow>
                      unat (e + len) \<le> c)
             else mpmc_step (s, ts) i = (s, ts)"
    if i: "i < length ts" and t: "ts ! i = Get_thread len (At_commit e bak) bytes" for i len e bak bytes
  proof -
    have "ts ! i \<in> set ts" using i by simp
    then have "thread_ok s (Get_thread len (At_commit e bak) bytes)" using all t by metis
    then have eb: "e = bak" and le: "unat bak + unat len \<le> unat (mpmc_out s)" by simp_all
    show ?thesis
    proof (cases "mpmc_real_out s = e")
      case True
      have "unat e + unat len < 2 ^ 64" using le eb b chain by (simp add: mpmc_chain_def)
      then have u: "unat (e + len) = unat (mpmc_real_out s) + unat len"
        using True unat_add_nowrap[of e len] by simp
      have r: "get_range (ts ! i) = Some (unat (mpmc_real_out s), unat (e + len))"
        using t eb True u by simp
      have "unat (e + len) \<le> c" if "j < length ts" "j \<noteq> i" "get_range (ts ! j) = Some (c, d)" for j c d
        using tiles_first[OF tg i r that] .
      then show ?thesis using True i t u by (simp add: compare_exchange_def)
    next
      case False
      have "ts[i := Get_thread len (At_commit bak bak) bytes] = ts"
        using t eb list_update_id[of ts i] by simp
      then show ?thesis using False i t by (simp add: compare_exchange_def)
    qed
  qed
  show ?thesis using tp tg put get by blast
qed

theorem commit_in_reservation_order_witness:
  "mpmc_exec (\<lparr>mpmc_buffer = [0, 0, 0, 0, 0, 0, 0, 0], mpmc_buf_size = 8, mpmc_enable_cv = False, mpmc_in = 0, mpmc_real_in = 0, mpmc_out = 0, mpmc_real_out = 0\<rparr>, map start [Write [1, 2] 2, Write [3, 4, 5] 3]) [0, 0, 0, 0, 0, 1, 1, 1, 1, 1] = (\<lparr>mpmc_buffer = [1, 2, 3, 4, 5, 0, 0, 0], mpmc_buf_size = 8, mpmc_enable_cv = False, mpmc_in = 5, mpmc_real_in = 0, mpmc_out = 0, mpmc_real_out = 0\<rparr>, [Put_thread [1, 2] 2 (At_commit 0 0), Put_thread [3, 4, 5] 3 (At_commit 2 2)]) \<and>
   tiles put_range [Put_thread [1, 2] 2 (At_commit 0 0), Put_thread [3, 4, 5] 3 (At_commit 2 2)] 0 5 \<and>
   mpmc_step (\<lparr>mpmc_buffer = [1, 2, 3, 4, 5, 0, 0, 0], mpmc_buf_size = 8, mpmc_enable_cv = False, mpmc_in = 5, mpmc_real_in = 0, mpmc_out = 0, mpmc_real_out = 0\<rparr>, [Put_thread [1, 2] 2 (At_commit 0 0), Put_thread [3, 4, 5] 3 (At_commit 2 2)]) 0 = (\<lparr>mpmc_buffer = [1, 2, 3, 4, 5, 0, 0, 0], mpmc_buf_size = 8, mpmc_enable_cv = False, mpmc_in = 5, mpmc_real_in = 2, mpmc_out = 0, mpmc_real_out = 0\<rparr>, [Put_thread [1, 2] 2 At_notify, Put_thread [3, 4, 5] 3 (At_commit 2 2)]) \<and>
   mpmc_step (\<lparr>mpmc_buffer = [1, 2, 3, 4, 5, 0, 0, 0], mpmc_buf_size = 8, mpmc_enable_cv = False, mpmc_in = 5, mpmc_real_in = 0, mpmc_out = 0, mpmc_real_out = 0\<rparr>, [Put_thread [1, 2] 2 (At_commit 0 0), Put_thread [3, 4, 5] 3 (At_commit 2 2)]) 1 = (\<lparr>mpmc_buffer = [1, 2, 3, 4, 5, 0, 0, 0], mpmc_buf_size = 8, mpmc_enable_cv = False, mpmc_in = 5, mpmc_real_in = 0, mpmc_out = 0, mpmc_real_out = 0\<rparr>, [Put_thread [1, 2] 2 (At_commit 0 0), Put_thread [3, 4, 5] 3 (At_commit 2 2)])"
proof -
  have h: "mpmc_wf \<lparr>mpmc_buffer = [0, 0, 0, 0, 0, 0, 0, 0], mpmc_buf_size = 8, mpmc_enable_cv = False, mpmc_in = 0, mpmc_real_in = 0, mpmc_out = 0, mpmc_real_out = 0\<rparr>"
    "mpmc_in \<lparr>mpmc_buffer = [0, 0, 0, 0, 0, 0, 0, 0], mpmc_buf_size = 8, mpmc_enable_cv = False, mpmc_in = 0, mpmc_real_in = 0, mpmc_out = 0, mpmc_real_out = 0\<rparr> = 0" "mpmc_real_in \<lparr>mpmc_buffer = [0, 0, 0, 0, 0, 0, 0, 0], mpmc_buf_size = 8, mpmc_enable_cv = False, mpmc_in = 0, mpmc_real_in = 0, mpmc_out = 0, mpmc_real_out = 0\<rparr> = 0" "mpmc_out \<lparr>mpmc_buffer = [0, 0, 0, 0, 0, 0, 0, 0], mpmc_buf_size = 8, mpmc_enable_cv = False, mpmc_in = 0, mpmc_real_in = 0, mpmc_out = 0, mpmc_real_out = 0\<rparr> = 0" "mpmc_real_out \<lparr>mpmc_buffer = [0, 0, 0, 0, 0, 0, 0, 0], mpmc_buf_size = 8, mpmc_enable_cv = False, mpmc_in = 0, mpmc_real_in = 0, mpmc_out = 0, mpmc_real_out = 0\<rparr> = 0"
    "\<forall>c\<in>set [Write [1, 2] 2, Write [3, 4, 5] 3]. call_fit c \<and> call_len c \<le> mpmc_buf_size \<lparr>mpmc_buffer = [0, 0, 0, 0, 0, 0, 0, 0], mpmc_buf_size = 8, mpmc_enable_cv = False, mpmc_in = 0, mpmc_real_in = 0, mpmc_out = 0, mpmc_real_out = 0\<rparr>"
    "bytes_written [Write [1, 2] 2, Write [3, 4, 5] 3] + unat (mpmc_buf_size \<lparr>mpmc_buffer = [0, 0, 0, 0, 0, 0, 0, 0], mpmc_buf_size = 8, mpmc_enable_cv = False, mpmc_in = 0, mpmc_real_in = 0, mpmc_out = 0, mpmc_real_out = 0\<rparr>) < 2 ^ 64"
    by (simp_all add: mpmc_wf_def power_of_two_8)
  note c = commit_in_reservation_order[OF h exec_commit8]
  from c have t: "tiles put_range [Put_thread [1, 2] 2 (At_commit 0 0), Put_thread [3, 4, 5] 3 (At_commit 2 2)] 0 5" by simp
  from c have p: "\<forall>i<length [Put_thread [1, 2] 2 (At_commit 0 0), Put_thread [3, 4, 5] 3 (At_commit 2 2)]. \<forall>buf len e bak. [Put_thread [1, 2] 2 (At_commit 0 0), Put_thread [3, 4, 5] 3 (At_commit 2 2)] ! i = Put_thread buf len (At_commit e bak) \<longrightarrow>
            (if mpmc_real_in \<lparr>mpmc_buffer = [1, 2, 3, 4, 5, 0, 0, 0], mpmc_buf_size = 8, mpmc_enable_cv = False, mpmc_in = 5, mpmc_real_in = 0, mpmc_out = 0, mpmc_real_out = 0\<rparr> = e
             then mpmc_step (\<lparr>mpmc_buffer = [1, 2, 3, 4, 5, 0, 0, 0], mpmc_buf_size = 8, mpmc_enable_cv = False, mpmc_in = 5, mpmc_real_in = 0, mpmc_out = 0, mpmc_real_out = 0\<rparr>, [Put_thread [1, 2] 2 (At_commit 0 0), Put_thread [3, 4, 5] 3 (At_commit 2 2)]) i =
                    (\<lparr>mpmc_buffer = [1, 2, 3, 4, 5, 0, 0, 0], mpmc_buf_size = 8, mpmc_enable_cv = False, mpmc_in = 5, mpmc_real_in = 0, mpmc_out = 0, mpmc_real_out = 0\<rparr>\<lparr>mpmc_real_in := e + len\<rparr>, [Put_thread [1, 2] 2 (At_commit 0 0), Put_thread [3, 4, 5] 3 (At_commit 2 2)][i := Put_thread buf len At_notify]) \<and>
                  unat (e + len) = unat (mpmc_real_in \<lparr>mpmc_buffer = [1, 2, 3, 4, 5, 0, 0, 0], mpmc_buf_size = 8, mpmc_enable_cv = False, mpmc_in = 5, mpmc_real_in = 0, mpmc_out = 0, mpmc_real_out = 0\<rparr>) + unat len \<and>
                  (\<forall>j<length [Put_thread [1, 2] 2 (At_commit 0 0), Put_thread [3, 4, 5] 3 (At_commit 2 2)]. \<forall>c d. j \<noteq> i \<and> put_range ([Put_thread [1, 2] 2 (At_commit 0 0), Put_thread [3, 4, 5] 3 (At_commit 2 2)] ! j) = Some (c, d) \<longrightarrow>
                      unat (e + len) \<le> c)
             else mpmc_step (\<lparr>mpmc_buffer = [1, 2, 3, 4, 5, 0, 0, 0], mpmc_buf_size = 8, mpmc_enable_cv = False, mpmc_in = 5, mpmc_real_in = 0, mpmc_out = 0, mpmc_real_out = 0\<rparr>, [Put_thread [1, 2] 2 (At_commit 0 0), Put_thread [3, 4, 5] 3 (At_commit 2 2)]) i = (\<lparr>mpmc_buffer = [1, 2, 3, 4, 5, 0, 0, 0], mpmc_buf_size = 8, mpmc_enable_cv = False, mpmc_in = 5, mpmc_real_in = 0, mpmc_out = 0, mpmc_real_out = 0\<rparr>, [Put_thread [1, 2] 2 (At_commit 0 0), Put_thread [3, 4, 5] 3 (At_commit 2 2)]))"
    by blast
  from p[rule_format, of 0 "[1, 2]" 2 0 0] have s0: "mpmc_step (\<lparr>mpmc_buffer = [1, 2, 3, 4, 5, 0, 0, 0], mpmc_buf_size = 8, mpmc_enable_cv = False, mpmc_in = 5, mpmc_real_in = 0, mpmc_out = 0, mpmc_real_out = 0\<rparr>, [Put_thread [1, 2] 2 (At_commit 0 0), Put_thread [3, 4, 5] 3 (At_commit 2 2)]) 0 = (\<lparr>mpmc_buffer = [1, 2, 3, 4, 5, 0, 0, 0], mpmc_buf_size = 8, mpmc_enable_cv = False, mpmc_in = 5, mpmc_real_in = 2, mpmc_out = 0, mpmc_real_out = 0\<rparr>, [Put_thread [1, 2] 2 At_notify, Put_thread [3, 4, 5] 3 (At_commit 2 2)])"
    by simp
  from p[rule_format, of 1 "[3, 4, 5]" 3 2 2] have s1: "mpmc_step (\<lparr>mpmc_buffer = [1, 2, 3, 4, 5, 0, 0, 0], mpmc_buf_size = 8, mpmc_enable_cv = False, mpmc_in = 5, mpmc_real_in = 0, mpmc_out = 0, mpmc_real_out = 0\<rparr>, [Put_thread [1, 2] 2 (At_commit 0 0), Put_thread [3, 4, 5] 3 (At_commit 2 2)]) 1 = (\<lparr>mpmc_buffer = [1, 2, 3, 4, 5, 0, 0, 0], mpmc_buf_size = 8, mpmc_enable_cv = False, mpmc_in = 5, mpmc_real_in = 0, mpmc_out = 0, mpmc_real_out = 0\<rparr>, [Put_thread [1, 2] 2 (At_commit 0 0), Put_thread [3, 4, 5] 3 (At_commit 2 2)])"
    by simp
  from exec_commit8 t s0 s1 show ?thesis by simp
qed

end
